theory Spec2Isabelle
  imports Complex_Main "HOL-Library.AList" "HOL-Library.Log_Nat"
begin

section \<open>Python values\<close>

text \<open>
  A Python \<open>str\<close> is a sequence of Unicode code points, so a string is a list of
  natural numbers and not a list of 8-bit characters. \<open>str\<close> writes an ASCII literal.
\<close>

type_synonym pystr = "nat list"

definition str :: "string \<Rightarrow> pystr" where
  "str s = map of_char s"

text \<open>
  A Python \<open>float\<close> is an IEEE binary64 value: a finite one is the rational number it
  denotes (the two zeros are equal and both falsy, so they are one value here).
\<close>

datatype pyfloat = Fin rat | PosInf | NegInf | NaN

text \<open>
  What \<open>json.loads\<close> returns: \<open>None\<close>, \<open>bool\<close>, \<open>int\<close>, \<open>float\<close>, \<open>str\<close>, \<open>list\<close>
  and \<open>dict\<close> with string keys. A \<open>dict\<close> is an association list in insertion order
  with distinct keys.
\<close>

datatype json =
    JNull
  | JBool bool
  | JInt int
  | JFloat pyfloat
  | JStr pystr
  | JArr "json list"
  | JObj "(pystr \<times> json) list"

datatype exn =
    TypeError
  | AttributeError
  | ValueError
  | RecursionError
  | JSONDecodeError
  | External pystr

text \<open>Python's truth value of an object: \<open>bool(x)\<close>.\<close>

fun truthy :: "json \<Rightarrow> bool" where
  "truthy JNull = False"
| "truthy (JBool b) = b"
| "truthy (JInt n) = (n \<noteq> 0)"
| "truthy (JFloat f) = (f \<noteq> Fin 0)"
| "truthy (JStr s) = (s \<noteq> [])"
| "truthy (JArr xs) = (xs \<noteq> [])"
| "truthy (JObj d) = (d \<noteq> [])"

text \<open>\<open>d.get(k)\<close>: the value under \<open>k\<close>, \<open>None\<close> when the key is absent.\<close>

definition dict_get :: "(pystr \<times> json) list \<Rightarrow> pystr \<Rightarrow> json" where
  "dict_get d k = (case map_of d k of None \<Rightarrow> JNull | Some v \<Rightarrow> v)"

text \<open>
  \<open>for x in v\<close>: a list yields its elements, a string its characters (strings of
  length one), a dict its keys; the other values are not iterable.
\<close>

fun py_iter :: "json \<Rightarrow> exn + json list" where
  "py_iter (JArr xs) = Inr xs"
| "py_iter (JStr s) = Inr (map (\<lambda>c. JStr [c]) s)"
| "py_iter (JObj d) = Inr (map (\<lambda>p. JStr (fst p)) d)"
| "py_iter _ = Inl TypeError"

section \<open>The directed graph (networkx \<open>DiGraph\<close>)\<close>

text \<open>
  A node is any hashable object, and two objects are the same node when they are equal:
  strings by their code points; \<open>True\<close>, \<open>1\<close> and \<open>1.0\<close> are one node. Lists and dicts
  are unhashable: \<open>py_key\<close> is \<open>None\<close> for them.
\<close>

datatype node = NStr pystr | NNum rat | NInf bool | NNaN | NNone

fun py_key :: "json \<Rightarrow> node option" where
  "py_key (JStr s) = Some (NStr s)"
| "py_key (JBool b) = Some (NNum (if b then 1 else 0))"
| "py_key (JInt n) = Some (NNum (of_int n))"
| "py_key (JFloat (Fin r)) = Some (NNum r)"
| "py_key (JFloat PosInf) = Some (NInf True)"
| "py_key (JFloat NegInf) = Some (NInf False)"
| "py_key (JFloat NaN) = Some NNaN"
| "py_key JNull = Some NNone"
| "py_key (JArr xs) = None"
| "py_key (JObj d) = None"

text \<open>
  The graph keeps its nodes in insertion order and, for every ordered pair of nodes
  joined by an edge, the edge's \<open>label\<close> attribute: a dict keyed by the pair, so a pair
  has at most one edge.
\<close>

record graph =
  nodes :: "node list"
  edges :: "((node \<times> node) \<times> json) list"

definition empty_graph :: graph where
  "empty_graph = \<lparr>nodes = [], edges = []\<rparr>"

definition add_node :: "node \<Rightarrow> node list \<Rightarrow> node list" where
  "add_node n ns = (if n \<in> set ns then ns else ns @ [n])"

text \<open>
  \<open>G.add_edge(u, v, label=l)\<close>: first \<open>u\<close>, then \<open>v\<close> is looked up among the nodes
  (an unhashable object raises \<open>TypeError\<close>) and becomes a node when it is not one yet
  (\<open>None\<close> raises \<open>ValueError\<close>); then the label is stored under \<open>(u, v)\<close>, replacing the
  label of an edge that is already there.
\<close>

definition add_edge :: "graph \<Rightarrow> json \<Rightarrow> json \<Rightarrow> json \<Rightarrow> exn + graph" where
  "add_edge G u v l =
     (case py_key u of
        None \<Rightarrow> Inl TypeError
      | Some ku \<Rightarrow>
          if u = JNull then Inl ValueError
          else
            (case py_key v of
               None \<Rightarrow> Inl TypeError
             | Some kv \<Rightarrow>
                 if v = JNull then Inl ValueError
                 else Inr \<lparr>nodes = add_node kv (add_node ku (nodes G)),
                           edges = AList.update (ku, kv) l (edges G)\<rparr>))"

section \<open>Graph Builder: \<open>build_and_save_graph\<close>, lines 65 to 71\<close>

definition subj_of :: "json \<Rightarrow> json" where
  "subj_of t = (case t of JObj d \<Rightarrow> dict_get d (str ''subject'') | _ \<Rightarrow> JNull)"

definition pred_of :: "json \<Rightarrow> json" where
  "pred_of t = (case t of JObj d \<Rightarrow> dict_get d (str ''predicate'') | _ \<Rightarrow> JNull)"

definition obj_of :: "json \<Rightarrow> json" where
  "obj_of t = (case t of JObj d \<Rightarrow> dict_get d (str ''object'') | _ \<Rightarrow> JNull)"

text \<open>
  The loop body. Only a dict has \<open>get\<close>: any other element raises \<open>AttributeError\<close>.
  \<open>if subj and pred and obj\<close> is the conjunction of the three truth values.
\<close>

fun build_loop :: "graph \<Rightarrow> json list \<Rightarrow> exn + graph" where
  "build_loop G [] = Inr G"
| "build_loop G (t # ts) =
     (case t of
        JObj d \<Rightarrow>
          (let subj = dict_get d (str ''subject'');
               pred = dict_get d (str ''predicate'');
               obj = dict_get d (str ''object'')
           in if truthy subj \<and> truthy pred \<and> truthy obj
              then (case add_edge G subj obj pred of
                      Inl e \<Rightarrow> Inl e
                    | Inr G' \<Rightarrow> build_loop G' ts)
              else build_loop G ts)
      | _ \<Rightarrow> Inl AttributeError)"

definition build_graph :: "json \<Rightarrow> exn + graph" where
  "build_graph triples =
     (case py_iter triples of
        Inl e \<Rightarrow> Inl e
      | Inr ts \<Rightarrow> build_loop empty_graph ts)"

text \<open>A triple all of whose three fields are truthy is the one that adds an edge.\<close>

definition populated :: "json \<Rightarrow> bool" where
  "populated t = (truthy (subj_of t) \<and> truthy (pred_of t) \<and> truthy (obj_of t))"

text \<open>
  The data model's Triple is a dict whose \<open>subject\<close>, \<open>predicate\<close> and \<open>object\<close> are
  strings where they are present. The builder needs less of it: a dict whose subject and
  object are hashable (no list and no dict); the predicate is only stored.
\<close>

definition is_triple :: "json \<Rightarrow> bool" where
  "is_triple t =
     (case t of
        JObj d \<Rightarrow> py_key (subj_of t) \<noteq> None \<and> py_key (obj_of t) \<noteq> None
      | _ \<Rightarrow> False)"

definition triple :: "string \<Rightarrow> string \<Rightarrow> string \<Rightarrow> json" where
  "triple s p ob =
     JObj [(str ''subject'', JStr (str s)), (str ''predicate'', JStr (str p)),
           (str ''object'', JStr (str ob))]"

section \<open>Cleaning the model's reply: lines 52 and 53\<close>

text \<open>
  \<open>str.strip()\<close> removes the leading and the trailing characters \<open>c\<close> with
  \<open>c.isspace()\<close>: the ASCII ones and the Unicode white space.
\<close>

definition py_isspace :: "nat \<Rightarrow> bool" where
  "py_isspace c =
     ((9 \<le> c \<and> c \<le> 13) \<or> (28 \<le> c \<and> c \<le> 32) \<or> c = 133 \<or> c = 160 \<or> c = 5760 \<or>
      (8192 \<le> c \<and> c \<le> 8202) \<or> c = 8232 \<or> c = 8233 \<or> c = 8239 \<or> c = 8287 \<or>
      c = 12288)"

definition py_strip :: "pystr \<Rightarrow> pystr" where
  "py_strip s = rev (dropWhile py_isspace (rev (dropWhile py_isspace s)))"

definition fence :: pystr where
  "fence = str ''```''"

definition fence_json :: pystr where
  "fence_json = str ''```json''"

text \<open>
  \<open>re.sub(r"^```(?:json)?|```$", "", s, flags=re.MULTILINE)\<close>, scanning from the left.
  \<open>bol\<close> says that the position is the start of the string or follows a newline
  (where \<open>^\<close> matches). At a line start three backticks match, with \<open>json\<close> when it
  follows; elsewhere three backticks match when the string ends or a newline follows
  (where \<open>$\<close> matches). A match is deleted and the scan goes on after it; any other
  character is copied.
\<close>

function sub_fences :: "bool \<Rightarrow> pystr \<Rightarrow> pystr" where
  "sub_fences bol s =
     (if s = [] then []
      else if bol \<and> take 7 s = fence_json then sub_fences False (drop 7 s)
      else if bol \<and> take 3 s = fence then sub_fences False (drop 3 s)
      else if take 3 s = fence \<and> (drop 3 s = [] \<or> hd (drop 3 s) = 10)
        then sub_fences False (drop 3 s)
      else hd s # sub_fences (hd s = 10) (tl s))"
  by pat_completeness auto
termination
  by (relation "measure (\<lambda>(bol, s). length s)") auto

declare sub_fences.simps [simp del]

text \<open>Line 53: the fences are deleted and the result is stripped.\<close>

definition clean_text :: "pystr \<Rightarrow> pystr" where
  "clean_text raw_text = py_strip (sub_fences True raw_text)"

section \<open>The JSON decoder: \<open>json.loads\<close>\<close>

text \<open>
  \<open>json.loads\<close> is the decoder of Python's standard library, modelled here by the
  grammar it accepts: the tokens of JSON (with the constants \<open>NaN\<close>, \<open>Infinity\<close> and
  \<open>-Infinity\<close>, which the decoder accepts as well), white space allowed between any two
  tokens, and one value with nothing after it. A text outside the grammar raises
  \<open>JSONDecodeError\<close>; the limits of the interpreter raise exceptions of their own.
\<close>

subsection \<open>Numbers\<close>

definition is_digit :: "nat \<Rightarrow> bool" where
  "is_digit c = (48 \<le> c \<and> c \<le> 57)"

definition digits_val :: "pystr \<Rightarrow> nat" where
  "digits_val ds = foldl (\<lambda>a c. 10 * a + (c - 48)) 0 ds"

definition round_half_even :: "rat \<Rightarrow> int" where
  "round_half_even x =
     (let f = \<lfloor>x\<rfloor>; d = x - of_int f
      in if d < 1 / 2 then f
         else if 1 / 2 < d then f + 1
         else if even f then f else f + 1)"

text \<open>The exponent \<open>e\<close> with \<open>2 ^ e \<le> a < 2 ^ (e + 1)\<close>, for a positive \<open>a\<close>.\<close>

definition binary_exponent :: "rat \<Rightarrow> int" where
  "binary_exponent a =
     (let (p, q) = quotient_of a;
          e0 = int (floorlog 2 (nat p)) - int (floorlog 2 (nat q))
      in if 2 powi e0 \<le> a then e0 else e0 - 1)"

text \<open>
  \<open>float(literal)\<close>: the binary64 value nearest to the literal's exact value, ties to
  the even mantissa; 53 bits of mantissa, the least exponent \<open>-1022\<close>, infinity from
  \<open>2 ^ 1024\<close> on.
\<close>

definition to_double :: "rat \<Rightarrow> pyfloat" where
  "to_double x =
     (if x = 0 then Fin 0
      else
        let a = \<bar>x\<bar>;
            e = max (binary_exponent a) (- 1022);
            ulp = 2 powi (e - 52);
            y = of_int (round_half_even (a / ulp)) * ulp
        in if 2 powi 1024 \<le> y then (if 0 < x then PosInf else NegInf)
           else Fin (if 0 < x then y else - y))"

text \<open>
  The number pattern \<open>(-?(?:0|[1-9]\d*))(\.\d+)?([eE][-+]?\d+)?\<close>, matched at the start of
  a text, group by group. The integer part: the sign, the digits and the text after them.
\<close>

definition lex_int :: "pystr \<Rightarrow> (bool \<times> pystr \<times> pystr) option" where
  "lex_int s =
     (let neg = (take 1 s = [45]);
          s1 = (if neg then drop 1 s else s)
      in if s1 = [] \<or> \<not> is_digit (hd s1) then None
         else if hd s1 = 48 then Some (neg, [48], drop 1 s1)
         else Some (neg, takeWhile is_digit s1, dropWhile is_digit s1))"

text \<open>The fraction: a point and at least one digit, or nothing.\<close>

definition lex_frac :: "pystr \<Rightarrow> pystr \<times> pystr" where
  "lex_frac s =
     (if take 1 s = [46] \<and> drop 1 s \<noteq> [] \<and> is_digit (hd (drop 1 s))
      then (takeWhile is_digit (drop 1 s), dropWhile is_digit (drop 1 s))
      else ([], s))"

text \<open>The exponent: \<open>e\<close> or \<open>E\<close>, a sign or none, at least one digit; or nothing.\<close>

definition lex_exp :: "pystr \<Rightarrow> (bool \<times> pystr) option \<times> pystr" where
  "lex_exp s =
     (if take 1 s = [101] \<or> take 1 s = [69] then
        (let e1 = drop 1 s;
             e2 = (if take 1 e1 = [45] \<or> take 1 e1 = [43] then drop 1 e1 else e1)
         in if e2 \<noteq> [] \<and> is_digit (hd e2)
            then (Some (take 1 e1 = [45], takeWhile is_digit e2), dropWhile is_digit e2)
            else (None, s))
      else (None, s))"

text \<open>
  The value of the match and the text after it. Without fraction and exponent the
  value is an \<open>int\<close>, with one of them a \<open>float\<close>.
\<close>

definition number_value :: "bool \<Rightarrow> pystr \<Rightarrow> pystr \<Rightarrow> (bool \<times> pystr) option \<Rightarrow> json" where
  "number_value neg ds fs ex =
     (case (fs, ex) of
        ([], None) \<Rightarrow> JInt (if neg then - int (digits_val ds) else int (digits_val ds))
      | _ \<Rightarrow>
          (let m = of_nat (digits_val (ds @ fs)) :: rat;
               e = (case ex of
                      None \<Rightarrow> 0
                    | Some (eneg, es) \<Rightarrow>
                        if eneg then - int (digits_val es) else int (digits_val es));
               v = m * 10 powi (e - int (length fs))
           in JFloat (to_double (if neg then - v else v))))"

definition lex_number :: "pystr \<Rightarrow> (json \<times> pystr) option" where
  "lex_number s =
     (case lex_int s of
        None \<Rightarrow> None
      | Some (neg, ds, s2) \<Rightarrow>
          (case lex_frac s2 of
             (fs, s3) \<Rightarrow>
               (case lex_exp s3 of
                  (ex, s4) \<Rightarrow> Some (number_value neg ds fs ex, s4))))"

subsection \<open>Strings\<close>

definition hex_val :: "nat \<Rightarrow> nat option" where
  "hex_val c =
     (if 48 \<le> c \<and> c \<le> 57 then Some (c - 48)
      else if 65 \<le> c \<and> c \<le> 70 then Some (c - 55)
      else if 97 \<le> c \<and> c \<le> 102 then Some (c - 87)
      else None)"

text \<open>\<open>_decode_uXXXX\<close>: four hexadecimal digits, their value and the text after them.\<close>

fun decode_uXXXX :: "pystr \<Rightarrow> (nat \<times> pystr) option" where
  "decode_uXXXX (a # b # c # d # r) =
     (case (hex_val a, hex_val b, hex_val c, hex_val d) of
        (Some x, Some y, Some z, Some w) \<Rightarrow> Some (((x * 16 + y) * 16 + z) * 16 + w, r)
      | _ \<Rightarrow> None)"
| "decode_uXXXX _ = None"

text \<open>The one-letter escapes, the table \<open>BACKSLASH\<close>.\<close>

definition backslash :: "nat \<Rightarrow> nat option" where
  "backslash e =
     (if e = 34 \<or> e = 92 \<or> e = 47 then Some e
      else if e = 98 then Some 8
      else if e = 102 then Some 12
      else if e = 110 then Some 10
      else if e = 114 then Some 13
      else if e = 116 then Some 9
      else None)"

lemma decode_uXXXX_length: "decode_uXXXX s = Some (u, r) \<Longrightarrow> length r < length s"
  by (induction s rule: decode_uXXXX.induct) (auto split: option.splits)

lemma decode_uXXXX_length2:
  "decode_uXXXX s = Some (u, r) \<Longrightarrow> decode_uXXXX (drop 2 r) = Some (u', r') \<Longrightarrow>
   length r' < length s"
  by (drule decode_uXXXX_length, drule decode_uXXXX_length) simp

text \<open>
  \<open>scanstring\<close>, after the opening quote: the string and the text after the closing
  quote. A control character (below \<open>0x20\<close>) is refused. A backslash starts an escape:
  \<open>\uXXXX\<close> is the code point, and a high surrogate followed by \<open>\u\<close> and a low
  surrogate is the one code point of the pair.
\<close>

function scanstring :: "pystr \<Rightarrow> (pystr \<times> pystr) option" where
  "scanstring [] = None"
| "scanstring (c # cs) =
     (if c = 34 then Some ([], cs)
      else if c < 32 then None
      else if c \<noteq> 92 then
        (case scanstring cs of None \<Rightarrow> None | Some (v, r) \<Rightarrow> Some (c # v, r))
      else
        (case cs of
           [] \<Rightarrow> None
         | e # es \<Rightarrow>
             if e \<noteq> 117 then
               (case backslash e of
                  None \<Rightarrow> None
                | Some ch \<Rightarrow>
                    (case scanstring es of None \<Rightarrow> None | Some (v, r) \<Rightarrow> Some (ch # v, r)))
             else
               (case decode_uXXXX es of
                  None \<Rightarrow> None
                | Some (uni, r4) \<Rightarrow>
                    if 55296 \<le> uni \<and> uni \<le> 56319 \<and> take 2 r4 = [92, 117] then
                      (case decode_uXXXX (drop 2 r4) of
                         None \<Rightarrow> None
                       | Some (uni2, r10) \<Rightarrow>
                           if 56320 \<le> uni2 \<and> uni2 \<le> 57343
                           then (case scanstring r10 of
                                   None \<Rightarrow> None
                                 | Some (v, r) \<Rightarrow>
                                     Some ((65536 + ((uni - 55296) * 1024 + (uni2 - 56320))) # v, r))
                           else (case scanstring r4 of
                                   None \<Rightarrow> None
                                 | Some (v, r) \<Rightarrow> Some (uni # v, r)))
                    else (case scanstring r4 of
                            None \<Rightarrow> None
                          | Some (v, r) \<Rightarrow> Some (uni # v, r)))))"
  by pat_completeness auto
termination
  by (relation "measure length") (auto dest: decode_uXXXX_length decode_uXXXX_length2)

subsection \<open>Tokens\<close>

datatype tok =
    T_lbracket | T_rbracket | T_lbrace | T_rbrace | T_comma | T_colon
  | T_value json

definition json_ws :: "nat \<Rightarrow> bool" where
  "json_ws c = (c = 32 \<or> c = 9 \<or> c = 10 \<or> c = 13)"

definition punct :: "nat \<Rightarrow> tok option" where
  "punct c =
     (if c = 91 then Some T_lbracket
      else if c = 93 then Some T_rbracket
      else if c = 123 then Some T_lbrace
      else if c = 125 then Some T_rbrace
      else if c = 44 then Some T_comma
      else if c = 58 then Some T_colon
      else None)"

text \<open>The text after the literal \<open>w\<close> when \<open>s\<close> starts with it.\<close>

definition after_word :: "pystr \<Rightarrow> pystr \<Rightarrow> pystr option" where
  "after_word w s = (if take (length w) s = w then Some (drop (length w) s) else None)"

text \<open>
  A scalar that is not a string, as \<open>scan_once\<close> tries them: \<open>null\<close>, \<open>true\<close>,
  \<open>false\<close>, a number, \<open>NaN\<close>, \<open>Infinity\<close>, \<open>-Infinity\<close>.
\<close>

definition lex_scalar :: "pystr \<Rightarrow> (json \<times> pystr) option" where
  "lex_scalar s =
     (case after_word (str ''null'') s of Some r \<Rightarrow> Some (JNull, r) | None \<Rightarrow>
      case after_word (str ''true'') s of Some r \<Rightarrow> Some (JBool True, r) | None \<Rightarrow>
      case after_word (str ''false'') s of Some r \<Rightarrow> Some (JBool False, r) | None \<Rightarrow>
      case lex_number s of Some vr \<Rightarrow> Some vr | None \<Rightarrow>
      case after_word (str ''NaN'') s of Some r \<Rightarrow> Some (JFloat NaN, r) | None \<Rightarrow>
      case after_word (str ''Infinity'') s of Some r \<Rightarrow> Some (JFloat PosInf, r) | None \<Rightarrow>
      case after_word (str ''-Infinity'') s of Some r \<Rightarrow> Some (JFloat NegInf, r) | None \<Rightarrow>
      None)"

text \<open>One token at the start of a text that does not start with white space.\<close>

definition next_token :: "pystr \<Rightarrow> (tok \<times> pystr) option" where
  "next_token s =
     (case s of
        [] \<Rightarrow> None
      | c # cs \<Rightarrow>
          (case punct c of
             Some t \<Rightarrow> Some (t, cs)
           | None \<Rightarrow>
               if c = 34
               then (case scanstring cs of
                       None \<Rightarrow> None
                     | Some (v, r) \<Rightarrow> Some (T_value (JStr v), r))
               else (case lex_scalar s of
                       None \<Rightarrow> None
                     | Some (v, r) \<Rightarrow> Some (T_value v, r))))"

section \<open>What a token consumes\<close>

lemma hex_val_ge: "hex_val x = Some y \<Longrightarrow> 48 \<le> x"
  by (auto simp: hex_val_def split: if_splits)

lemma decode_uXXXX_consumed:
  "decode_uXXXX s = Some (u, r) \<Longrightarrow> \<exists>h. s = h @ r \<and> length h = 4 \<and> (\<forall>x\<in>set h. 48 \<le> x)"
proof (induction s rule: decode_uXXXX.induct)
  case (1 a b c d r')
  then have "r = r'" "48 \<le> a" "48 \<le> b" "48 \<le> c" "48 \<le> d"
    by (auto split: option.splits dest: hex_val_ge)
  then have "a # b # c # d # r' = [a, b, c, d] @ r \<and> length [a, b, c, d] = 4 \<and> (\<forall>x\<in>set [a, b, c, d]. 48 \<le> x)"
    by simp
  then show ?case by blast
qed simp_all

lemma backslash_ge: "backslash e = Some ch \<Longrightarrow> 34 \<le> e"
  by (auto simp: backslash_def split: if_splits)

text \<open>how a string is read: an elimination rule with one case per branch\<close>

lemma scanstring_cases:
  assumes "scanstring s = Some (v, r)"
  obtains
    (quote) "s = 34 # r" "v = []"
  | (plain) c cs v' where "s = c # cs" "c \<noteq> 34" "32 \<le> c" "c \<noteq> 92"
      "scanstring cs = Some (v', r)" "v = c # v'"
  | (escape) e es ch v' where "s = 92 # e # es" "e \<noteq> 117" "backslash e = Some ch"
      "scanstring es = Some (v', r)" "v = ch # v'"
  | (pair) es uni r4 uni2 r10 v' where "s = 92 # 117 # es" "decode_uXXXX es = Some (uni, r4)"
      "55296 \<le> uni" "uni \<le> 56319" "take 2 r4 = [92, 117]"
      "decode_uXXXX (drop 2 r4) = Some (uni2, r10)" "56320 \<le> uni2" "uni2 \<le> 57343"
      "scanstring r10 = Some (v', r)"
      "v = (65536 + ((uni - 55296) * 1024 + (uni2 - 56320))) # v'"
  | (lone) es uni r4 uni2 r10 v' where "s = 92 # 117 # es" "decode_uXXXX es = Some (uni, r4)"
      "55296 \<le> uni" "uni \<le> 56319" "take 2 r4 = [92, 117]"
      "decode_uXXXX (drop 2 r4) = Some (uni2, r10)" "\<not> (56320 \<le> uni2 \<and> uni2 \<le> 57343)"
      "scanstring r4 = Some (v', r)" "v = uni # v'"
  | (unicode) es uni r4 v' where "s = 92 # 117 # es" "decode_uXXXX es = Some (uni, r4)"
      "\<not> (55296 \<le> uni \<and> uni \<le> 56319 \<and> take 2 r4 = [92, 117])"
      "scanstring r4 = Some (v', r)" "v = uni # v'"
proof (cases s)
  case Nil
  with assms show ?thesis by simp
next
  case (Cons c cs)
  show ?thesis
  proof (cases "c = 34")
    case True
    with assms Cons quote show ?thesis by simp
  next
    case nq: False
    show ?thesis
    proof (cases "c = 92")
      case False
      with assms Cons nq plain show ?thesis
        by (auto split: if_splits option.splits)
    next
      case bs: True
      with assms Cons nq obtain e es where cs: "cs = e # es"
        by (cases cs) auto
      show ?thesis
      proof (cases "e = 117")
        case False
        with assms Cons nq bs cs escape show ?thesis
          by (auto split: if_splits option.splits)
      next
        case u: True
        from assms Cons nq bs cs u obtain uni r4 where d: "decode_uXXXX es = Some (uni, r4)"
          by (auto split: option.splits)
        show ?thesis
        proof (cases "55296 \<le> uni \<and> uni \<le> 56319 \<and> take 2 r4 = [92, 117]")
          case False
          with assms Cons nq bs cs u d unicode[of es uni r4] show ?thesis
            by (auto split: option.splits)
        next
          case True
          with assms Cons nq bs cs u d obtain uni2 r10
            where d2: "decode_uXXXX (drop 2 r4) = Some (uni2, r10)"
            by (auto split: option.splits)
          show ?thesis
          proof (cases "56320 \<le> uni2 \<and> uni2 \<le> 57343")
            case low: True
            with assms Cons nq bs cs u d True d2 pair[of es uni r4 uni2 r10] show ?thesis
              by (auto split: option.splits)
          next
            case False
            with assms Cons nq bs cs u d True d2 lone[of es uni r4 uni2 r10] show ?thesis
              by (auto split: option.splits)
          qed
        qed
      qed
    qed
  qed
qed


lemma scanstring_consumed:
  "scanstring s = Some (v, r) \<Longrightarrow> \<exists>c. s = c @ 34 # r \<and> 10 \<notin> set c"
proof (induction s arbitrary: v r rule: length_induct)
  case (1 s)
  note IH = "1.IH"[rule_format]
  from "1.prems" show ?case
  proof (cases rule: scanstring_cases)
    case quote
    then have "s = [] @ 34 # r \<and> 10 \<notin> set []" by simp
    then show ?thesis by blast
  next
    case (plain c cs v')
    from IH[of cs v' r] plain obtain c' where "cs = c' @ 34 # r" "10 \<notin> set c'"
      by auto
    with plain have "s = (c # c') @ 34 # r \<and> 10 \<notin> set (c # c')" by simp
    then show ?thesis by blast
  next
    case (escape e es ch v')
    from IH[of es v' r] escape obtain c' where "es = c' @ 34 # r" "10 \<notin> set c'"
      by auto
    moreover from escape have "34 \<le> e" by (auto dest: backslash_ge)
    ultimately have "s = (92 # e # c') @ 34 # r \<and> 10 \<notin> set (92 # e # c')"
      using escape by simp
    then show ?thesis by blast
  next
    case (pair es uni r4 uni2 r10 v')
    from decode_uXXXX_consumed[OF pair(2)] obtain h
      where h: "es = h @ r4" "length h = 4" "\<forall>x\<in>set h. 48 \<le> x" by blast
    from pair(5) have r4: "r4 = [92, 117] @ drop 2 r4"
      by (metis append_take_drop_id)
    from decode_uXXXX_consumed[OF pair(6)] obtain h2
      where h2: "drop 2 r4 = h2 @ r10" "length h2 = 4" "\<forall>x\<in>set h2. 48 \<le> x" by blast
    have "length r10 < length s" using pair(1) h r4 h2
      by (metis add_lessD1 decode_uXXXX_length2 length_Cons less_SucI pair(2) pair(6))
    from IH[OF this pair(9)] obtain c' where c': "r10 = c' @ 34 # r" "10 \<notin> set c'"
      by auto
    have "s = (92 # 117 # h @ [92, 117] @ h2 @ c') @ 34 # r"
      using pair(1) h(1) r4 h2(1) c'(1) by (metis append.assoc append_Cons)
    moreover have "10 \<notin> set (92 # 117 # h @ [92, 117] @ h2 @ c')"
      using h(3) h2(3) c'(2) by auto
    ultimately show ?thesis by blast
  next
    case (lone es uni r4 uni2 r10 v')
    from decode_uXXXX_consumed[OF lone(2)] obtain h
      where h: "es = h @ r4" "length h = 4" "\<forall>x\<in>set h. 48 \<le> x" by blast
    have "length r4 < length s" using lone(1) h by simp
    from IH[OF this lone(8)] obtain c' where c': "r4 = c' @ 34 # r" "10 \<notin> set c'"
      by auto
    have "s = (92 # 117 # h @ c') @ 34 # r"
      using lone(1) h(1) c'(1) by simp
    moreover have "10 \<notin> set (92 # 117 # h @ c')"
      using h(3) c'(2) by auto
    ultimately show ?thesis by blast
  next
    case (unicode es uni r4 v')
    from decode_uXXXX_consumed[OF unicode(2)] obtain h
      where h: "es = h @ r4" "length h = 4" "\<forall>x\<in>set h. 48 \<le> x" by blast
    have "length r4 < length s" using unicode(1) h by simp
    from IH[OF this unicode(4)] obtain c' where c': "r4 = c' @ 34 # r" "10 \<notin> set c'"
      by auto
    have "s = (92 # 117 # h @ c') @ 34 # r"
      using unicode(1) h(1) c'(1) by simp
    moreover have "10 \<notin> set (92 # 117 # h @ c')"
      using h(3) c'(2) by auto
    ultimately show ?thesis by blast
  qed
qed

lemma scanstring_length: "scanstring s = Some (v, r) \<Longrightarrow> length r < length s"
  by (drule scanstring_consumed) auto

lemma decode_uXXXX_snoc:
  "decode_uXXXX (s @ [x]) = Some (u, r) \<Longrightarrow>
   r = [] \<or> (\<exists>r'. r = r' @ [x] \<and> decode_uXXXX s = Some (u, r'))"
  by (cases s rule: decode_uXXXX.cases) (auto split: option.splits)

lemma decode_uXXXX_append:
  "decode_uXXXX s = Some (u, r) \<Longrightarrow> decode_uXXXX (s @ t) = Some (u, r @ t)"
  by (cases s rule: decode_uXXXX.cases) (auto split: option.splits)

lemma scanstring_snoc:
  "scanstring (s @ [x]) = Some (v, r) \<Longrightarrow> x \<noteq> 34 \<Longrightarrow>
   \<exists>r'. r = r' @ [x] \<and> scanstring s = Some (v, r')"
proof (induction s arbitrary: v r rule: length_induct)
  case (1 s)
  note IH = "1.IH"[rule_format]
  note x = \<open>x \<noteq> 34\<close>
  from "1.prems"(1) show ?case
  proof (cases rule: scanstring_cases)
    case quote
    with x obtain s' where "s = 34 # s'" "r = s' @ [x]"
      by (cases s) auto
    with quote show ?thesis by simp
  next
    case (plain c cs v')
    from plain obtain s' where s: "s = c # s'" "cs = s' @ [x]"
      by (cases s) auto
    from IH[of s' v' r] s plain x obtain r' where "r = r' @ [x]" "scanstring s' = Some (v', r')"
      by auto
    with s plain show ?thesis by simp
  next
    case (escape e es ch v')
    from escape obtain s' where s: "s = 92 # e # s'" "es = s' @ [x]"
      by (cases s; cases "tl s") auto
    from IH[of s' v' r] s escape x obtain r' where "r = r' @ [x]" "scanstring s' = Some (v', r')"
      by auto
    with s escape show ?thesis by simp
  next
    case (unicode es uni r4 v')
    from unicode obtain s' where s: "s = 92 # 117 # s'" "es = s' @ [x]"
      by (cases s; cases "tl s") auto
    from unicode(2) s decode_uXXXX_snoc[of s' x uni r4] unicode(4)
    obtain r4' where r4: "r4 = r4' @ [x]" "decode_uXXXX s' = Some (uni, r4')"
      by auto
    have "length r4' < length s" using s r4 by (auto dest: decode_uXXXX_length)
    from IH[OF this, of v' r] unicode(4) r4 x
    obtain r' where r': "r = r' @ [x]" "scanstring r4' = Some (v', r')"
      by auto
    have "\<not> (55296 \<le> uni \<and> uni \<le> 56319 \<and> take 2 r4' = [92, 117])"
      using unicode(3) r4(1) by (cases r4'; cases "tl r4'") auto
    with s r4 r' unicode(5) show ?thesis by auto
  next
    case (pair es uni r4 uni2 r10 v')
    from pair obtain s' where s: "s = 92 # 117 # s'" "es = s' @ [x]"
      by (cases s; cases "tl s") auto
    from pair(2) s decode_uXXXX_snoc[of s' x uni r4] pair(5)
    obtain r4' where r4: "r4 = r4' @ [x]" "decode_uXXXX s' = Some (uni, r4')"
      by auto
    have t2: "take 2 r4' = [92, 117]" and d2: "drop 2 r4 = drop 2 r4' @ [x]"
      using pair(5,6) r4(1) by (cases r4'; cases "tl r4'"; auto)+
    from pair(6) d2 decode_uXXXX_snoc[of "drop 2 r4'" x uni2 r10] pair(9)
    obtain r10' where r10: "r10 = r10' @ [x]" "decode_uXXXX (drop 2 r4') = Some (uni2, r10')"
      by auto
    have "length r10' < length s" using s r4 r10
      by (auto dest!: decode_uXXXX_length)
    from IH[OF this, of v' r] pair(9) r10 x
    obtain r' where r': "r = r' @ [x]" "scanstring r10' = Some (v', r')"
      by auto
    with s r4 r10 t2 pair(3,4,7,8,10) show ?thesis by simp
  next
    case (lone es uni r4 uni2 r10 v')
    from lone obtain s' where s: "s = 92 # 117 # s'" "es = s' @ [x]"
      by (cases s; cases "tl s") auto
    from lone(2) s decode_uXXXX_snoc[of s' x uni r4] lone(5)
    obtain r4' where r4: "r4 = r4' @ [x]" "decode_uXXXX s' = Some (uni, r4')"
      by auto
    have "length r4' < length s" using s r4 by (auto dest: decode_uXXXX_length)
    from IH[OF this, of v' r] lone(8) r4 x
    obtain r' where r': "r = r' @ [x]" "scanstring r4' = Some (v', r')"
      by auto
    show ?thesis
    proof (cases "take 2 r4' = [92, 117]")
      case False
      with s r4 r' lone(9) show ?thesis by simp
    next
      case True
      then have d2: "drop 2 r4 = drop 2 r4' @ [x]"
        using r4(1) by (cases r4'; cases "tl r4'"; auto)
      from True have r4'': "r4' = 92 # 117 # drop 2 r4'"
        by (cases r4'; cases "tl r4'") auto
      from r'(2) obtain u3 r3 where d3: "decode_uXXXX (drop 2 r4') = Some (u3, r3)"
        by (subst (asm) r4'') (auto split: option.splits)
      from decode_uXXXX_append[OF d3, of "[x]"] lone(6) d2
      have "u3 = uni2" by simp
      with s r4 r' d3 True lone(3,4,7,9) show ?thesis by auto
    qed
  qed
qed

lemma takeWhile_snoc_not: "\<not> P x \<Longrightarrow> takeWhile P (s @ [x]) = takeWhile P s"
  by (induction s) auto

lemma dropWhile_snoc_not: "\<not> P x \<Longrightarrow> dropWhile P (s @ [x]) = dropWhile P s @ [x]"
  by (induction s) auto

text \<open>the characters of a scalar token\<close>

lemma is_digit_range: "is_digit x \<Longrightarrow> 43 \<le> x \<and> x \<le> 122 \<and> x \<noteq> 96"
  by (auto simp: is_digit_def)

lemma lex_int_consumed:
  assumes "lex_int s = Some (neg, ds, r)"
  shows "\<exists>c. s = c @ r \<and> c \<noteq> [] \<and> (\<forall>x\<in>set c. 43 \<le> x \<and> x \<le> 122 \<and> x \<noteq> 96)"
proof -
  define s1 where "s1 = (if take 1 s = [45] then drop 1 s else s)"
  have s: "s = (if take 1 s = [45] then [45] else []) @ s1"
    by (cases s) (auto simp: s1_def)
  from assms have ok: "s1 \<noteq> []" "is_digit (hd s1)"
    by (auto simp: lex_int_def Let_def s1_def split: if_splits)
  then obtain d s1' where s1: "s1 = d # s1'" "is_digit d" by (cases s1) auto
  from assms ok have "r = (if hd s1 = 48 then drop 1 s1 else dropWhile is_digit s1)"
    by (auto simp: lex_int_def Let_def s1_def split: if_splits)
  then have "\<exists>c1. s1 = c1 @ r \<and> c1 \<noteq> [] \<and> (\<forall>x\<in>set c1. 43 \<le> x \<and> x \<le> 122 \<and> x \<noteq> 96)"
  proof (cases "hd s1 = 48")
    case True
    with s1 \<open>r = _\<close> have "s1 = [d] @ r \<and> [d] \<noteq> [] \<and> (\<forall>x\<in>set [d]. 43 \<le> x \<and> x \<le> 122 \<and> x \<noteq> 96)"
      by (auto dest: is_digit_range)
    then show ?thesis by blast
  next
    case False
    with s1 \<open>r = _\<close> have r: "r = dropWhile is_digit s1'" by simp
    have "s1 = (d # takeWhile is_digit s1') @ r" using s1 r by simp
    moreover have "\<forall>x\<in>set (d # takeWhile is_digit s1'). 43 \<le> x \<and> x \<le> 122 \<and> x \<noteq> 96"
      using s1 by (auto dest!: set_takeWhileD is_digit_range)
    ultimately show ?thesis by blast
  qed
  then obtain c1 where c1: "s1 = c1 @ r" "c1 \<noteq> []" "\<forall>x\<in>set c1. 43 \<le> x \<and> x \<le> 122 \<and> x \<noteq> 96"
    by blast
  let ?c = "(if take 1 s = [45] then [45] else []) @ c1"
  have "s = ?c @ r" using s c1(1) by simp
  moreover have "?c \<noteq> []" using c1(2) by simp
  moreover have "\<forall>x\<in>set ?c. 43 \<le> x \<and> x \<le> 122 \<and> x \<noteq> 96" using c1(3) by auto
  ultimately show ?thesis by blast
qed

lemma lex_frac_consumed:
  assumes "lex_frac s = (fs, r)"
  shows "\<exists>c. s = c @ r \<and> (\<forall>x\<in>set c. 43 \<le> x \<and> x \<le> 122 \<and> x \<noteq> 96)"
proof (cases "take 1 s = [46] \<and> drop 1 s \<noteq> [] \<and> is_digit (hd (drop 1 s))")
  case True
  then obtain s' where s: "s = 46 # s'" by (cases s) auto
  from assms True s have r: "r = dropWhile is_digit s'" by (simp add: lex_frac_def)
  have "s = (46 # takeWhile is_digit s') @ r" using s r by simp
  moreover have "\<forall>x\<in>set (46 # takeWhile is_digit s'). 43 \<le> x \<and> x \<le> 122 \<and> x \<noteq> 96"
    by (auto dest!: set_takeWhileD is_digit_range)
  ultimately show ?thesis by blast
next
  case False
  with assms have "r = s" by (auto simp: lex_frac_def split: if_splits)
  then have "s = [] @ r \<and> (\<forall>x\<in>set []. 43 \<le> x \<and> x \<le> 122 \<and> x \<noteq> (96::nat))" by simp
  then show ?thesis by blast
qed

lemma lex_exp_consumed:
  assumes "lex_exp s = (ex, r)"
  shows "\<exists>c. s = c @ r \<and> (\<forall>x\<in>set c. 43 \<le> x \<and> x \<le> 122 \<and> x \<noteq> 96)"
proof (cases "ex")
  case None
  with assms have "r = s" by (auto simp: lex_exp_def Let_def split: if_splits)
  then have "s = [] @ r \<and> (\<forall>x\<in>set []. 43 \<le> x \<and> x \<le> 122 \<and> x \<noteq> (96::nat))" by simp
  then show ?thesis by blast
next
  case (Some a)
  define e1 where "e1 = drop 1 s"
  define e2 where "e2 = (if take 1 e1 = [45] \<or> take 1 e1 = [43] then drop 1 e1 else e1)"
  from assms Some have c: "take 1 s = [101] \<or> take 1 s = [69]"
    and r: "r = dropWhile is_digit e2"
    by (auto simp: lex_exp_def Let_def e1_def e2_def split: if_splits)
  let ?a = "take 1 s" and ?b = "(if take 1 e1 = [45] \<or> take 1 e1 = [43] then take 1 e1 else [])"
  have "s = ?a @ e1" by (simp add: e1_def)
  moreover have "e1 = ?b @ e2" by (simp add: e2_def)
  moreover have "e2 = takeWhile is_digit e2 @ r" by (simp add: r)
  ultimately have "s = (?a @ ?b @ takeWhile is_digit e2) @ r" by (metis append.assoc)
  moreover have "\<forall>x\<in>set (?a @ ?b @ takeWhile is_digit e2). 43 \<le> x \<and> x \<le> 122 \<and> x \<noteq> 96"
    using c by (auto dest!: set_takeWhileD is_digit_range)
  ultimately show ?thesis by blast
qed

lemma lex_number_consumed:
  assumes "lex_number s = Some (v, r)"
  shows "\<exists>c. s = c @ r \<and> c \<noteq> [] \<and> (\<forall>x\<in>set c. 43 \<le> x \<and> x \<le> 122 \<and> x \<noteq> 96)"
proof -
  from assms obtain neg ds s2 fs s3 ex where i: "lex_int s = Some (neg, ds, s2)"
    and f: "lex_frac s2 = (fs, s3)" and e: "lex_exp s3 = (ex, r)"
    by (auto simp: lex_number_def split: option.splits prod.splits)
  from lex_int_consumed[OF i] obtain c1 where c1: "s = c1 @ s2" "c1 \<noteq> []"
    "\<forall>x\<in>set c1. 43 \<le> x \<and> x \<le> 122 \<and> x \<noteq> 96" by blast
  from lex_frac_consumed[OF f] obtain c2 where c2: "s2 = c2 @ s3"
    "\<forall>x\<in>set c2. 43 \<le> x \<and> x \<le> 122 \<and> x \<noteq> 96" by blast
  from lex_exp_consumed[OF e] obtain c3 where c3: "s3 = c3 @ r"
    "\<forall>x\<in>set c3. 43 \<le> x \<and> x \<le> 122 \<and> x \<noteq> 96" by blast
  have "s = (c1 @ c2 @ c3) @ r" using c1(1) c2(1) c3(1) by simp
  moreover have "c1 @ c2 @ c3 \<noteq> []" using c1(2) by simp
  moreover have "\<forall>x\<in>set (c1 @ c2 @ c3). 43 \<le> x \<and> x \<le> 122 \<and> x \<noteq> 96"
    using c1(3) c2(2) c3(2) by auto
  ultimately show ?thesis by blast
qed

lemma after_word_consumed: "after_word w s = Some r \<Longrightarrow> s = w @ r"
  by (auto simp: after_word_def split: if_splits) (metis append_take_drop_id)

lemma lex_scalar_consumed:
  assumes "lex_scalar s = Some (v, r)"
  shows "\<exists>c. s = c @ r \<and> c \<noteq> [] \<and> (\<forall>x\<in>set c. 43 \<le> x \<and> x \<le> 122 \<and> x \<noteq> 96)"
proof -
  have w: "\<exists>c. s = c @ r \<and> c \<noteq> [] \<and> (\<forall>x\<in>set c. 43 \<le> x \<and> x \<le> 122 \<and> x \<noteq> 96)"
    if "after_word w s = Some r" "w \<noteq> []" "\<forall>x\<in>set w. 43 \<le> x \<and> x \<le> 122 \<and> x \<noteq> 96" for w
    using that after_word_consumed[of w s r] by blast
  from assms consider "after_word (str ''null'') s = Some r"
    | "after_word (str ''true'') s = Some r"
    | "after_word (str ''false'') s = Some r"
    | "lex_number s = Some (v, r)"
    | "after_word (str ''NaN'') s = Some r"
    | "after_word (str ''Infinity'') s = Some r"
    | "after_word (str ''-Infinity'') s = Some r"
    by (auto simp: lex_scalar_def split: option.splits)
  then show ?thesis
  proof cases
    case 4
    then show ?thesis by (rule lex_number_consumed)
  qed (erule w; simp add: str_def)+
qed

text \<open>one more character that belongs to no number does not change what a lexer reads\<close>

lemma lex_int_snoc:
  assumes "\<not> is_digit x" "x \<noteq> 45"
  shows "lex_int (s @ [x]) = map_option (\<lambda>(n, d, r). (n, d, r @ [x])) (lex_int s)"
proof (cases s)
  case Nil
  with assms show ?thesis by (simp add: lex_int_def)
next
  case (Cons a s')
  show ?thesis
  proof (cases "a = 45")
    case True
    with Cons assms show ?thesis
      by (cases s') (auto simp: lex_int_def Let_def dropWhile_snoc_not takeWhile_snoc_not)
  next
    case False
    with Cons assms show ?thesis
      by (auto simp: lex_int_def Let_def dropWhile_snoc_not takeWhile_snoc_not)
  qed
qed

lemma lex_frac_snoc:
  assumes "\<not> is_digit x" "x \<noteq> 46"
  shows "lex_frac (s @ [x]) = (case lex_frac s of (fs, r) \<Rightarrow> (fs, r @ [x]))"
proof (cases s)
  case Nil
  with assms show ?thesis by (simp add: lex_frac_def)
next
  case (Cons a s')
  with assms show ?thesis
    by (cases s') (auto simp: lex_frac_def dropWhile_snoc_not takeWhile_snoc_not)
qed

lemma lex_exp_snoc:
  assumes "\<not> is_digit x" "x \<noteq> 101" "x \<noteq> 69" "x \<noteq> 45" "x \<noteq> 43"
  shows "lex_exp (s @ [x]) = (case lex_exp s of (ex, r) \<Rightarrow> (ex, r @ [x]))"
proof (cases s)
  case Nil
  with assms show ?thesis by (simp add: lex_exp_def)
next
  case (Cons a s')
  show ?thesis
  proof (cases s')
    case Nil
    with Cons assms show ?thesis by (auto simp: lex_exp_def Let_def)
  next
    case (Cons b s'')
    with \<open>s = a # s'\<close> assms show ?thesis
      by (cases s'') (auto simp: lex_exp_def Let_def dropWhile_snoc_not takeWhile_snoc_not)
  qed
qed

lemma lex_number_snoc:
  assumes "\<not> is_digit x" "x \<noteq> 101" "x \<noteq> 69" "x \<noteq> 45" "x \<noteq> 43" "x \<noteq> 46"
  shows "lex_number (s @ [x]) = map_option (\<lambda>(v, r). (v, r @ [x])) (lex_number s)"
  using assms
  by (auto simp: lex_number_def lex_int_snoc lex_frac_snoc lex_exp_snoc
      split: option.splits prod.splits)

lemma after_word_snoc:
  assumes "x \<notin> set w"
  shows "after_word w (s @ [x]) = map_option (\<lambda>r. r @ [x]) (after_word w s)"
proof (cases "length w \<le> length s")
  case True
  then show ?thesis by (simp add: after_word_def)
next
  case False
  then have "take (length w) (s @ [x]) = s @ [x]" by simp
  moreover have "s @ [x] \<noteq> w" using assms by auto
  moreover have "take (length w) s \<noteq> w"
  proof
    assume "take (length w) s = w"
    then have "length (take (length w) s) = length w" by simp
    with False show False by simp
  qed
  ultimately show ?thesis by (simp add: after_word_def)
qed

lemma py_isspace_range: "py_isspace x \<Longrightarrow> \<not> (43 \<le> x \<and> x \<le> 125) \<and> x \<noteq> 34"
  by (auto simp: py_isspace_def)

lemma lex_scalar_snoc:
  assumes "py_isspace x"
  shows "lex_scalar (s @ [x]) = map_option (\<lambda>(v, r). (v, r @ [x])) (lex_scalar s)"
proof -
  from py_isspace_range[OF assms]
  have n: "\<not> is_digit x" "x \<noteq> 101" "x \<noteq> 69" "x \<noteq> 45" "x \<noteq> 43" "x \<noteq> 46"
    by (auto simp: is_digit_def)
  have w: "x \<notin> set (str ''null'')" "x \<notin> set (str ''true'')" "x \<notin> set (str ''false'')"
    "x \<notin> set (str ''NaN'')" "x \<notin> set (str ''Infinity'')" "x \<notin> set (str ''-Infinity'')"
    using py_isspace_range[OF assms] by (auto simp: str_def)
  show ?thesis
    unfolding lex_scalar_def after_word_snoc[OF w(1)] after_word_snoc[OF w(2)]
      after_word_snoc[OF w(3)] after_word_snoc[OF w(4)] after_word_snoc[OF w(5)]
      after_word_snoc[OF w(6)] lex_number_snoc[OF n]
    by (auto split: option.splits)
qed

lemma punct_range: "punct c = Some t \<Longrightarrow> 43 \<le> c \<and> c \<le> 125 \<and> c \<noteq> 96"
  by (auto simp: punct_def split: if_splits)

lemma next_token_consumed:
  assumes "next_token s = Some (t, r)"
  shows "\<exists>c. s = c @ r \<and> c \<noteq> [] \<and> 10 \<notin> set c \<and> hd c \<noteq> 96 \<and> last c \<noteq> 96 \<and>
     \<not> py_isspace (hd c)"
proof -
  from assms obtain a cs where s: "s = a # cs" by (cases s) (auto simp: next_token_def)
  show ?thesis
  proof (cases "punct a")
    case (Some p)
    with assms s have "r = cs" by (simp add: next_token_def)
    with s punct_range[OF Some] py_isspace_range[of a]
    have "s = [a] @ r \<and> [a] \<noteq> [] \<and> 10 \<notin> set [a] \<and> hd [a] \<noteq> 96 \<and> last [a] \<noteq> 96 \<and>
       \<not> py_isspace (hd [a])" by auto
    then show ?thesis by blast
  next
    case None
    show ?thesis
    proof (cases "a = 34")
      case True
      with assms s None obtain v where "scanstring cs = Some (v, r)"
        by (auto simp: next_token_def split: option.splits)
      from scanstring_consumed[OF this] obtain c0 where c0: "cs = c0 @ 34 # r" "10 \<notin> set c0"
        by blast
      let ?c = "34 # c0 @ [34]"
      have "s = ?c @ r" using s True c0 by simp
      moreover have "?c \<noteq> [] \<and> 10 \<notin> set ?c \<and> hd ?c \<noteq> 96 \<and> last ?c \<noteq> 96 \<and> \<not> py_isspace (hd ?c)"
        using c0 by (simp add: py_isspace_def)
      ultimately show ?thesis by blast
    next
      case False
      with assms s None obtain v where "lex_scalar s = Some (v, r)"
        by (auto simp: next_token_def split: option.splits)
      from lex_scalar_consumed[OF this] obtain c
        where c: "s = c @ r" "c \<noteq> []" "\<forall>x\<in>set c. 43 \<le> x \<and> x \<le> 122 \<and> x \<noteq> 96"
        by blast
      from c(2) have "hd c \<in> set c" "last c \<in> set c" by simp_all
      with c(3) have "43 \<le> hd c \<and> hd c \<le> 122 \<and> hd c \<noteq> 96" "last c \<noteq> 96" by blast+
      moreover have "10 \<notin> set c" using c(3) by auto
      ultimately show ?thesis using c(1,2) py_isspace_range[of "hd c"] by auto
    qed
  qed
qed

lemma next_token_length: "next_token s = Some (t, r) \<Longrightarrow> length r < length s"
  by (drule next_token_consumed) auto

lemma next_token_snoc:
  assumes "next_token (s @ [x]) = Some (t, r)" "py_isspace x"
  shows "\<exists>r'. r = r' @ [x] \<and> next_token s = Some (t, r')"
proof (cases s)
  case Nil
  with assms(1) next_token_consumed[of "[x]" t r] obtain c where "[x] = c @ r" "c \<noteq> []"
    "\<not> py_isspace (hd c)" by auto
  then have "hd c = x" by (cases c) auto
  with \<open>\<not> py_isspace (hd c)\<close> assms(2) show ?thesis by simp
next
  case (Cons a cs)
  show ?thesis
  proof (cases "punct a")
    case (Some p)
    with assms Cons show ?thesis by (auto simp: next_token_def)
  next
    case None
    show ?thesis
    proof (cases "a = 34")
      case True
      with assms Cons None obtain v where v: "scanstring (cs @ [x]) = Some (v, r)"
        "t = T_value (JStr v)"
        by (auto simp: next_token_def split: option.splits)
      from scanstring_snoc[OF v(1)] py_isspace_range[OF assms(2)]
      obtain r' where "r = r' @ [x]" "scanstring cs = Some (v, r')" by auto
      with Cons None True v(2) show ?thesis by (simp add: next_token_def)
    next
      case False
      with assms Cons None obtain v where v: "lex_scalar ((a # cs) @ [x]) = Some (v, r)"
        "t = T_value v"
        by (auto simp: next_token_def split: option.splits)
      from v(1) obtain r' where "r = r' @ [x]" "lex_scalar (a # cs) = Some (v, r')"
        unfolding lex_scalar_snoc[OF assms(2)] by auto
      with Cons None False v(2) show ?thesis by (simp add: next_token_def)
    qed
  qed
qed

subsection \<open>The tokens of a text\<close>

text \<open>The tokens of a text, white space skipped; \<open>None\<close> when some text is no token.\<close>

function tokenize :: "pystr \<Rightarrow> tok list option" where
  "tokenize s =
     (case s of
        [] \<Rightarrow> Some []
      | c # cs \<Rightarrow>
          if json_ws c then tokenize cs
          else (case next_token s of
                  None \<Rightarrow> None
                | Some (t, r) \<Rightarrow> map_option (Cons t) (tokenize r)))"
  by pat_completeness auto
termination
  by (relation "measure length") (auto dest: next_token_length)

declare tokenize.simps [simp del]

subsection \<open>Values from tokens\<close>

text \<open>
  The containers that are open, innermost first: a list with the elements read so far,
  or a dict with the pairs read so far and the key that waits for its value. A key read
  twice keeps its place and takes the later value, as \<open>dict(pairs)\<close> does.
\<close>

datatype frame =
    In_array "json list"
  | In_object "(pystr \<times> json) list" "pystr option"

datatype expect =
    Value
  | Value_or_end
  | Key
  | Key_or_end
  | Colon
  | Comma_or_end
  | Finished json

text \<open>A complete value goes into the innermost open container, or is the result.\<close>

fun push_value :: "json \<Rightarrow> frame list \<Rightarrow> (expect \<times> frame list) option" where
  "push_value v [] = Some (Finished v, [])"
| "push_value v (In_array xs # st) = Some (Comma_or_end, In_array (xs @ [v]) # st)"
| "push_value v (In_object ps (Some k) # st) =
     Some (Comma_or_end, In_object (AList.update k v ps) None # st)"
| "push_value v (In_object ps None # st) = None"

fun close_array :: "frame list \<Rightarrow> (expect \<times> frame list) option" where
  "close_array (In_array xs # st) = push_value (JArr xs) st"
| "close_array _ = None"

fun close_object :: "frame list \<Rightarrow> (expect \<times> frame list) option" where
  "close_object (In_object ps None # st) = push_value (JObj ps) st"
| "close_object _ = None"

fun parse_step :: "expect \<times> frame list \<Rightarrow> tok \<Rightarrow> (expect \<times> frame list) option" where
  "parse_step (Value, st) (T_value v) = push_value v st"
| "parse_step (Value, st) T_lbracket = Some (Value_or_end, In_array [] # st)"
| "parse_step (Value, st) T_lbrace = Some (Key_or_end, In_object [] None # st)"
| "parse_step (Value_or_end, st) (T_value v) = push_value v st"
| "parse_step (Value_or_end, st) T_lbracket = Some (Value_or_end, In_array [] # st)"
| "parse_step (Value_or_end, st) T_lbrace = Some (Key_or_end, In_object [] None # st)"
| "parse_step (Value_or_end, st) T_rbracket = close_array st"
| "parse_step (Key, In_object ps None # st) (T_value (JStr k)) =
     Some (Colon, In_object ps (Some k) # st)"
| "parse_step (Key_or_end, In_object ps None # st) (T_value (JStr k)) =
     Some (Colon, In_object ps (Some k) # st)"
| "parse_step (Key_or_end, st) T_rbrace = close_object st"
| "parse_step (Colon, st) T_colon = Some (Value, st)"
| "parse_step (Comma_or_end, In_array xs # st) T_comma = Some (Value, In_array xs # st)"
| "parse_step (Comma_or_end, In_object ps None # st) T_comma =
     Some (Key, In_object ps None # st)"
| "parse_step (Comma_or_end, st) T_rbracket = close_array st"
| "parse_step (Comma_or_end, st) T_rbrace = close_object st"
| "parse_step _ _ = None"

fun parse_tokens :: "expect \<times> frame list \<Rightarrow> tok list \<Rightarrow> json option" where
  "parse_tokens (Finished v, []) [] = Some v"
| "parse_tokens _ [] = None"
| "parse_tokens st (t # ts) =
     (case parse_step st t of
        None \<Rightarrow> None
      | Some st' \<Rightarrow> parse_tokens st' ts)"

text \<open>
  The value of a text of the grammar: the tokens are read one by one, from the state
  that expects a value with no container open, and the text is accepted when the last
  token leaves the finished value and no container open.
\<close>

definition json_decode :: "pystr \<Rightarrow> json option" where
  "json_decode s =
     (case tokenize s of
        None \<Rightarrow> None
      | Some ts \<Rightarrow> parse_tokens (Value, []) ts)"

subsection \<open>The decoder and the interpreter's limits\<close>

text \<open>
  The decoder reads the text once, from the left, and raises at the first thing that
  stops it. Besides a text outside the grammar (\<open>JSONDecodeError\<close>) two limits of the
  interpreter stop it, as CPython 3.11 counts them.

  The recursion limit: every list or dict that is open takes one level, and so does the
  call that looks up \<open>NaN\<close>, \<open>Infinity\<close> or \<open>-Infinity\<close>; \<open>RecursionError\<close> is raised
  when none is left. \<open>nesting_room\<close> is the number of levels the scanner starts with,
  so the number of containers that can be open at a time. Building a \<open>JSONDecodeError\<close>
  takes levels too, \<open>error_levels\<close> of them, and where they are not left the
  \<open>RecursionError\<close> is raised in its place.

  The digit limit: \<open>int\<close> refuses a literal of more digits than
  \<open>sys.get_int_max_str_digits()\<close> with a \<open>ValueError\<close>; \<open>0\<close> is no limit.
\<close>

record interpreter =
  nesting_room :: nat
  error_levels :: nat
  int_max_str_digits :: nat

text \<open>
  Where a \<open>JSONDecodeError\<close> is built: in the scanner, under the containers that are
  open (a missing delimiter or key, a string that does not end or escapes badly); in
  \<open>raw_decode\<close>, which calls the scanner, when the scanner found no value where one
  must start; in \<open>decode\<close>, which calls \<open>raw_decode\<close>, when text follows the value.
\<close>

datatype site =
    In_scanner nat
  | In_raw_decode
  | In_decode

definition decode_error :: "interpreter \<Rightarrow> site \<Rightarrow> exn" where
  "decode_error ip where_built =
     (if (case where_built of
            In_scanner d \<Rightarrow> nesting_room ip < d + error_levels ip
          | In_raw_decode \<Rightarrow> nesting_room ip + 1 < error_levels ip
          | In_decode \<Rightarrow> nesting_room ip + 2 < error_levels ip)
      then RecursionError
      else JSONDecodeError)"

text \<open>
  The site of the error when the text \<open>s\<close> cannot go on in the state \<open>st\<close>. Where a
  value must start, only a string is scanned by the scanner itself.
\<close>

definition error_site :: "expect \<times> frame list \<Rightarrow> pystr \<Rightarrow> site" where
  "error_site st s =
     (case fst st of
        Finished v \<Rightarrow> In_decode
      | Value \<Rightarrow> if take 1 s = [34] then In_scanner (length (snd st)) else In_raw_decode
      | Value_or_end \<Rightarrow> if take 1 s = [34] then In_scanner (length (snd st)) else In_raw_decode
      | _ \<Rightarrow> In_scanner (length (snd st)))"

function decimal_digits :: "nat \<Rightarrow> nat" where
  "decimal_digits n = (if n < 10 then 1 else Suc (decimal_digits (n div 10)))"
  by pat_completeness auto
termination
  by (relation "measure id") auto

declare decimal_digits.simps [simp del]

text \<open>The text starts with one of the constants that \<open>parse_constant\<close> looks up.\<close>

definition starts_with :: "pystr \<Rightarrow> pystr \<Rightarrow> bool" where
  "starts_with w s = (take (length w) s = w)"

definition constant_text :: "pystr \<Rightarrow> bool" where
  "constant_text s =
     (starts_with (str ''NaN'') s \<or> starts_with (str ''Infinity'') s \<or>
      starts_with (str ''-Infinity'') s)"

text \<open>
  The limit a token runs into, once the grammar has accepted it where it stands:
  \<open>stack\<close> holds the containers open before the token and \<open>s\<close> starts with the token.
\<close>

definition limit_error :: "interpreter \<Rightarrow> frame list \<Rightarrow> pystr \<Rightarrow> tok \<Rightarrow> exn option" where
  "limit_error ip stack s t =
     (if (t = T_lbracket \<or> t = T_lbrace \<or> constant_text s) \<and> nesting_room ip \<le> length stack
      then Some RecursionError
      else (case t of
              T_value (JInt n) \<Rightarrow>
                if 0 < int_max_str_digits ip \<and>
                   int_max_str_digits ip < decimal_digits (nat \<bar>n\<bar>)
                then Some ValueError else None
            | _ \<Rightarrow> None))"

function decode_text :: "interpreter \<Rightarrow> expect \<times> frame list \<Rightarrow> pystr \<Rightarrow> exn + json" where
  "decode_text ip st s =
     (case s of
        [] \<Rightarrow>
          (case st of
             (Finished v, []) \<Rightarrow> Inr v
           | _ \<Rightarrow> Inl (decode_error ip (error_site st s)))
      | c # cs \<Rightarrow>
          if json_ws c then decode_text ip st cs
          else (case next_token s of
                  None \<Rightarrow> Inl (decode_error ip (error_site st s))
                | Some (t, r) \<Rightarrow>
                    (case parse_step st t of
                       None \<Rightarrow> Inl (decode_error ip (error_site st s))
                     | Some st' \<Rightarrow>
                         (case limit_error ip (snd st) s t of
                            Some e \<Rightarrow> Inl e
                          | None \<Rightarrow> decode_text ip st' r))))"
  by pat_completeness auto
termination
  by (relation "measure (\<lambda>(ip, st, s). length s)") (auto dest: next_token_length)

declare decode_text.simps [simp del]

text \<open>\<open>json.loads\<close>: the value of the text, or the exception that stops the decoder.\<close>

definition json_loads :: "interpreter \<Rightarrow> pystr \<Rightarrow> exn + json" where
  "json_loads ip s = decode_text ip (Value, []) s"

section \<open>The pipeline\<close>

subsection \<open>The world outside the functions\<close>

text \<open>
  A page of an opened document is known by the text \<open>get_text\<close> returns for it. The
  image written by \<open>savefig\<close> is the figure of a graph: its nodes, edges and edge labels
  under the fixed title (the positions come from the layout and are not part of the
  model).
\<close>

datatype page = Page pystr

fun get_text :: "page \<Rightarrow> pystr" where
  "get_text (Page t) = t"

datatype image = Figure graph

text \<open>What the functions do to the outside, in the order they do it.\<close>

datatype event =
    Upload_saved pystr
  | Pdf_opened pystr
  | Model_called pystr
  | Printed pystr
  | Image_saved pystr

text \<open>
  The two folders (file name to content), the number of identifiers drawn from
  \<open>uuid.uuid4()\<close> so far, and the trace of events.
\<close>

record world =
  uploads :: "pystr \<rightharpoonup> nat list"
  generated :: "pystr \<rightharpoonup> image"
  drawn :: nat
  trace :: "event list"

text \<open>
  The libraries and services the code calls and this repository does not contain:
  the hexadecimal form of the \<open>n\<close>-th random identifier, \<open>fitz.open\<close> on the bytes of
  a file (an exception, or the pages), the language model (an exception, or the text
  of its reply), the limits of the interpreter the request runs in, and the text layout
  of the drawing library: whether it can lay out a string (it parses a string with an
  even number of dollar signs as a formula and refuses a malformed one), and whether it
  can lay out the \<open>str\<close> form of a list or dict.
\<close>

record services =
  uuid4_hex :: "nat \<Rightarrow> pystr"
  fitz_open :: "nat list \<Rightarrow> exn + page list"
  generate_content :: "pystr \<Rightarrow> exn + pystr"
  interp :: interpreter
  text_renders :: "pystr \<Rightarrow> bool"
  repr_renders :: "json \<Rightarrow> bool"

definition uuid4 :: "services \<Rightarrow> world \<Rightarrow> pystr \<times> world" where
  "uuid4 sv w = (uuid4_hex sv (drawn w), w\<lparr>drawn := Suc (drawn w)\<rparr>)"

subsection \<open>Text Extractor: \<open>extract_text_from_pdf\<close>, lines 36 to 38\<close>

definition extract_text_from_pdf :: "services \<Rightarrow> pystr \<Rightarrow> world \<Rightarrow> (exn + pystr) \<times> world" where
  "extract_text_from_pdf sv pdf_path w =
     (let w' = w\<lparr>trace := trace w @ [Pdf_opened pdf_path]\<rparr>
      in case uploads w pdf_path of
           None \<Rightarrow> (Inl (External (str ''FileNotFoundError'')), w')
         | Some bytes \<Rightarrow>
             (case fitz_open sv bytes of
                Inl e \<Rightarrow> (Inl e, w')
              | Inr doc \<Rightarrow> (Inr (concat (map get_text doc)), w')))"

subsection \<open>Triple Extractor: \<open>extract_knowledge_triples\<close>, lines 41 to 61\<close>

definition prompt_head :: pystr where
  "prompt_head =
     [10] @ str ''Make the text short with simplified sentences such that triples can be extracted easily and Respond only with a valid JSON array of triples. Do not include any explanations or text before or after and Extract knowledge triples from this text:''
     @ [10] @ str ''Format example: ['' @ [10]
     @ str ''  {'' @ [34] @ str ''subject'' @ [34] @ str '': '' @ [34] @ str ''...'' @ [34]
     @ str '', '' @ [34] @ str ''predicate'' @ [34] @ str '': '' @ [34] @ str ''...'' @ [34]
     @ str '', '' @ [34] @ str ''object'' @ [34] @ str '': '' @ [34] @ str ''...'' @ [34]
     @ str ''}'' @ [10] @ str '']'' @ [10] @ str ''Text:'' @ [10] @ [34, 34, 34]"

definition prompt_of :: "pystr \<Rightarrow> pystr" where
  "prompt_of text = prompt_head @ text @ [34, 34, 34, 10]"

definition parse_failed_message :: pystr where
  "parse_failed_message = [10060] @ str '' Failed to parse JSON from Gemini response:''"

text \<open>
  What \<open>json.loads\<close> returns is returned as it is. Of the exceptions only
  \<open>json.JSONDecodeError\<close> is caught: the two lines are printed (\<open>print\<close> is taken to
  succeed) and the empty list is returned. Any other exception of the decoder leaves the
  function.
\<close>

definition extract_knowledge_triples :: "services \<Rightarrow> pystr \<Rightarrow> world \<Rightarrow> (exn + json) \<times> world" where
  "extract_knowledge_triples sv text w =
     (let prompt = prompt_of text;
          w1 = w\<lparr>trace := trace w @ [Model_called prompt]\<rparr>
      in case generate_content sv prompt of
           Inl e \<Rightarrow> (Inl e, w1)
         | Inr response_text \<Rightarrow>
             (let raw_text = py_strip response_text;
                  cleaned_text = clean_text raw_text
              in case json_loads (interp sv) cleaned_text of
                   Inr triples \<Rightarrow> (Inr triples, w1)
                 | Inl e \<Rightarrow>
                     if e = JSONDecodeError
                     then (Inr (JArr []),
                           w1\<lparr>trace := trace w1 @
                                [Printed parse_failed_message, Printed raw_text]\<rparr>)
                     else (Inl e, w1)))"

subsection \<open>Graph Builder and Renderer: \<open>build_and_save_graph\<close>, lines 64 to 80\<close>

text \<open>
  Lines 73 to 80. The figure shows every node under the text of its \<open>str\<close> form and
  every edge label likewise; \<open>savefig\<close> lays the texts out and raises \<open>ValueError\<close> for
  one the text layout refuses, before anything is written. The \<open>str\<close> form of a number
  or a truth value has no dollar sign and is laid out.
\<close>

fun node_renders :: "services \<Rightarrow> node \<Rightarrow> bool" where
  "node_renders sv (NStr s) = text_renders sv s"
| "node_renders sv _ = True"

fun label_renders :: "services \<Rightarrow> json \<Rightarrow> bool" where
  "label_renders sv (JStr s) = text_renders sv s"
| "label_renders sv (JArr xs) = repr_renders sv (JArr xs)"
| "label_renders sv (JObj d) = repr_renders sv (JObj d)"
| "label_renders sv _ = True"

definition render :: "services \<Rightarrow> graph \<Rightarrow> exn + image" where
  "render sv G =
     (if list_all (node_renders sv) (nodes G) \<and>
         list_all (\<lambda>e. label_renders sv (snd e)) (edges G)
      then Inr (Figure G)
      else Inl ValueError)"

definition build_and_save_graph ::
  "services \<Rightarrow> json \<Rightarrow> pystr \<Rightarrow> world \<Rightarrow> (exn + unit) \<times> world" where
  "build_and_save_graph sv triples image_path w =
     (case build_graph triples of
        Inl e \<Rightarrow> (Inl e, w)
      | Inr G \<Rightarrow>
          (case render sv G of
             Inl e \<Rightarrow> (Inl e, w)
           | Inr img \<Rightarrow>
               (Inr (),
                w\<lparr>generated := (generated w)(image_path \<mapsto> img),
                  trace := trace w @ [Image_saved image_path]\<rparr>)))"

subsection \<open>Submit document: \<open>upload_pdf\<close>, lines 138 to 157\<close>

text \<open>
  An uploaded file: \<open>not pdf_file\<close> holds for a file whose name is empty.
  \<open>request.files\<close> maps a field name to the first file sent under it.
\<close>

record file_storage =
  filename :: pystr
  bytes_of :: "nat list"

record request =
  files :: "(pystr \<times> file_storage) list"

record response =
  status :: nat
  body :: json

definition error_response :: "nat \<Rightarrow> string \<Rightarrow> response" where
  "error_response code msg = \<lparr>status = code, body = JObj [(str ''error'', JStr (str msg))]\<rparr>"

text \<open>Lines 143 to 145: the upload is stored under a fresh name.\<close>

definition save_upload :: "services \<Rightarrow> file_storage \<Rightarrow> world \<Rightarrow> pystr \<times> world" where
  "save_upload sv pdf_file w =
     (case uuid4 sv w of
        (h, w1) \<Rightarrow>
          (let pdf_filename = h @ str ''.pdf''
           in (pdf_filename,
               w1\<lparr>uploads := (uploads w1)(pdf_filename \<mapsto> bytes_of pdf_file),
                  trace := trace w1 @ [Upload_saved pdf_filename]\<rparr>)))"

text \<open>Lines 150 to 157, once the triples are there.\<close>

definition respond :: "services \<Rightarrow> json \<Rightarrow> world \<Rightarrow> (exn + response) \<times> world" where
  "respond sv triples w =
     (if \<not> truthy triples then (Inr (error_response 500 ''No triples extracted from PDF''), w)
      else
        case uuid4 sv w of
          (h, w1) \<Rightarrow>
            (let image_filename = h @ str ''.png''
             in case build_and_save_graph sv triples image_filename w1 of
                  (Inl e, w2) \<Rightarrow> (Inl e, w2)
                | (Inr u, w2) \<Rightarrow>
                    (Inr \<lparr>status = 200,
                          body = JObj [(str ''image_url'',
                                        JStr (str ''/generated/'' @ image_filename))]\<rparr>,
                     w2)))"

text \<open>
  The handler. An exception that no handler catches (\<open>Inl\<close>) ends the request; what was
  written before it stays.
\<close>

definition upload_pdf :: "services \<Rightarrow> request \<Rightarrow> world \<Rightarrow> (exn + response) \<times> world" where
  "upload_pdf sv req w =
     (case map_of (files req) (str ''pdf'') of
        None \<Rightarrow> (Inr (error_response 400 ''No PDF file uploaded''), w)
      | Some pdf_file \<Rightarrow>
          if filename pdf_file = [] then (Inr (error_response 400 ''No PDF file uploaded''), w)
          else
            case save_upload sv pdf_file w of
              (pdf_path, w1) \<Rightarrow>
                (case extract_text_from_pdf sv pdf_path w1 of
                   (Inl e, w2) \<Rightarrow> (Inl e, w2)
                 | (Inr text, w2) \<Rightarrow>
                     (case extract_knowledge_triples sv text w2 of
                        (Inl e, w3) \<Rightarrow> (Inl e, w3)
                      | (Inr triples, w3) \<Rightarrow> respond sv triples w3)))"

section \<open>Texts without a fence at a line boundary\<close>

text \<open>
  No backtick of the text stands at a line start (\<open>bol\<close> says that the text itself
  starts one) or at a line end: each has a character before it and one after it in the
  text, and neither is a newline. The pattern of \<open>sub_fences\<close> matches nowhere in such
  a text.
\<close>

fun fence_free :: "bool \<Rightarrow> pystr \<Rightarrow> bool" where
  "fence_free bol [] = True"
| "fence_free bol (c # cs) =
     ((c \<noteq> 96 \<or> (\<not> bol \<and> cs \<noteq> [] \<and> hd cs \<noteq> 10)) \<and> fence_free (c = 10) cs)"

section \<open>Stubbed services, an empty world and a request with a file\<close>

text \<open>
  The services of the end-to-end tests: the model is a stub that returns a fixed reply,
  the interpreter has the default limits of CPython 3.11 (recursion limit 1000, of which
  993 levels are left to the scanner; 4300 digits), and the text layout refuses every
  text with a dollar sign.
\<close>

definition default_limits :: interpreter where
  "default_limits = \<lparr>nesting_room = 993, error_levels = 3, int_max_str_digits = 4300\<rparr>"

definition stub_services :: "pystr \<Rightarrow> services" where
  "stub_services reply =
     \<lparr>uuid4_hex = (\<lambda>n. if n = 0 then str ''0f8fad5bd9cb469fa16570867728950e''
                          else str ''7c9e6679742540de944be07fc1f90ae7''),
      fitz_open = (\<lambda>b. Inr [Page (str ''Alice knows Bob.'')]),
      generate_content = (\<lambda>p. Inr reply),
      interp = default_limits,
      text_renders = (\<lambda>s. 36 \<notin> set s),
      repr_renders = (\<lambda>v. True)\<rparr>"

definition empty_world :: world where
  "empty_world = \<lparr>uploads = Map.empty, generated = Map.empty, drawn = 0, trace = []\<rparr>"

definition pdf_request :: request where
  "pdf_request = \<lparr>files = [(str ''pdf'', \<lparr>filename = str ''a.pdf'', bytes_of = [37, 80, 68, 70]\<rparr>)]\<rparr>"

section \<open>Properties of the Graph Builder\<close>

lemma build_loop_Cons:
  "build_loop G (t # ts) =
     (case t of
        JObj d \<Rightarrow>
          (if populated t
           then (case add_edge G (subj_of t) (obj_of t) (pred_of t) of
                   Inl e \<Rightarrow> Inl e
                 | Inr G' \<Rightarrow> build_loop G' ts)
           else build_loop G ts)
      | _ \<Rightarrow> Inl AttributeError)"
  by (simp add: populated_def subj_of_def pred_of_def obj_of_def Let_def split: json.splits)

declare build_loop.simps(2) [simp del]

lemma add_edge_Inr:
  "add_edge G u v l = Inr G' \<longleftrightarrow>
     (\<exists>a b. py_key u = Some a \<and> py_key v = Some b \<and> u \<noteq> JNull \<and> v \<noteq> JNull \<and>
        G' = \<lparr>nodes = add_node b (add_node a (nodes G)),
              edges = AList.update (a, b) l (edges G)\<rparr>)"
  by (cases u; cases v) (auto simp: add_edge_def split: option.splits)

lemma set_add_node: "set (add_node n ns) = insert n (set ns)"
  by (auto simp: add_node_def)

lemma build_loop_nodes:
  "build_loop G ts = Inr G' \<Longrightarrow>
   set (nodes G') = set (nodes G) \<union>
     {n. \<exists>t\<in>set ts. populated t \<and> (py_key (subj_of t) = Some n \<or> py_key (obj_of t) = Some n)}"
proof (induction ts arbitrary: G)
  case Nil
  then show ?case by simp
next
  case (Cons t ts)
  show ?case
  proof (cases "populated t")
    case True
    with Cons.prems obtain d G1 where t: "t = JObj d"
      and G1: "add_edge G (subj_of t) (obj_of t) (pred_of t) = Inr G1"
      and rest: "build_loop G1 ts = Inr G'"
      by (auto simp: build_loop_Cons split: json.splits sum.splits)
    from G1 obtain a b where ab: "py_key (subj_of t) = Some a" "py_key (obj_of t) = Some b"
      and G1': "nodes G1 = add_node b (add_node a (nodes G))"
      by (auto simp: add_edge_Inr)
    from Cons.IH[OF rest] G1' ab True show ?thesis
      by (auto simp: set_add_node)
  next
    case False
    with Cons.prems have rest: "build_loop G ts = Inr G'"
      by (auto simp: build_loop_Cons split: json.splits)
    from Cons.IH[OF rest] False show ?thesis by auto
  qed
qed

lemma build_loop_edge_keys:
  "build_loop G ts = Inr G' \<Longrightarrow>
   fst ` set (edges G') = fst ` set (edges G) \<union>
     {(a, b). \<exists>t\<in>set ts. populated t \<and> py_key (subj_of t) = Some a \<and> py_key (obj_of t) = Some b}"
proof (induction ts arbitrary: G)
  case Nil
  then show ?case by simp
next
  case (Cons t ts)
  show ?case
  proof (cases "populated t")
    case True
    with Cons.prems obtain d G1 where t: "t = JObj d"
      and G1: "add_edge G (subj_of t) (obj_of t) (pred_of t) = Inr G1"
      and rest: "build_loop G1 ts = Inr G'"
      by (auto simp: build_loop_Cons split: json.splits sum.splits)
    from G1 obtain a b where ab: "py_key (subj_of t) = Some a" "py_key (obj_of t) = Some b"
      and G1': "edges G1 = AList.update (a, b) (pred_of t) (edges G)"
      by (auto simp: add_edge_Inr)
    have "fst ` set (edges G1) = insert (a, b) (fst ` set (edges G))"
      by (simp add: G1' dom_update)
    with Cons.IH[OF rest] ab True show ?thesis
      by auto
  next
    case False
    with Cons.prems have rest: "build_loop G ts = Inr G'"
      by (auto simp: build_loop_Cons split: json.splits)
    from Cons.IH[OF rest] False show ?thesis by auto
  qed
qed

lemma build_loop_distinct:
  "build_loop G ts = Inr G' \<Longrightarrow> distinct (map fst (edges G)) \<Longrightarrow> distinct (map fst (edges G'))"
proof (induction ts arbitrary: G)
  case Nil
  then show ?case by simp
next
  case (Cons t ts)
  show ?case
  proof (cases "populated t")
    case True
    with Cons.prems obtain d G1 where t: "t = JObj d"
      and G1: "add_edge G (subj_of t) (obj_of t) (pred_of t) = Inr G1"
      and rest: "build_loop G1 ts = Inr G'"
      by (auto simp: build_loop_Cons split: json.splits sum.splits)
    from G1 Cons.prems(2) have "distinct (map fst (edges G1))"
      by (auto simp: add_edge_Inr distinct_update)
    with Cons.IH[OF rest] show ?thesis by simp
  next
    case False
    with Cons.prems have rest: "build_loop G ts = Inr G'"
      by (auto simp: build_loop_Cons split: json.splits)
    from Cons.IH[OF rest] Cons.prems(2) show ?thesis by auto
  qed
qed

text \<open>the label under a pair is the predicate of the last populated triple on that pair\<close>

lemma build_loop_label:
  "build_loop G ts = Inr G' \<Longrightarrow>
   map_of (edges G') (a, b) =
     (case filter (\<lambda>t. populated t \<and> py_key (subj_of t) = Some a \<and> py_key (obj_of t) = Some b) ts of
        [] \<Rightarrow> map_of (edges G) (a, b)
      | x # xs \<Rightarrow> Some (pred_of (last (x # xs))))"
proof (induction ts arbitrary: G)
  case Nil
  then show ?case by simp
next
  case (Cons t ts)
  let ?P = "\<lambda>t. populated t \<and> py_key (subj_of t) = Some a \<and> py_key (obj_of t) = Some b"
  show ?case
  proof (cases "populated t")
    case True
    with Cons.prems obtain d G1 where t: "t = JObj d"
      and G1: "add_edge G (subj_of t) (obj_of t) (pred_of t) = Inr G1"
      and rest: "build_loop G1 ts = Inr G'"
      by (auto simp: build_loop_Cons split: json.splits sum.splits)
    from G1 obtain a' b' where ab: "py_key (subj_of t) = Some a'" "py_key (obj_of t) = Some b'"
      and G1': "edges G1 = AList.update (a', b') (pred_of t) (edges G)"
      by (auto simp: add_edge_Inr)
    have m: "map_of (edges G1) (a, b) = (if (a', b') = (a, b) then Some (pred_of t) else map_of (edges G) (a, b))"
      by (simp add: G1' update_conv')
    show ?thesis
      using Cons.IH[OF rest] m ab True
      by (auto split: list.splits)
  next
    case False
    with Cons.prems have rest: "build_loop G ts = Inr G'"
      by (auto simp: build_loop_Cons split: json.splits)
    from Cons.IH[OF rest] False show ?thesis by (auto split: list.splits)
  qed
qed

lemma build_loop_triples:
  "\<forall>t\<in>set ts. is_triple t \<Longrightarrow> \<exists>G'. build_loop G ts = Inr G'"
proof (induction ts arbitrary: G)
  case Nil
  then show ?case by simp
next
  case (Cons t ts)
  from Cons.prems have tr: "is_triple t" and rest: "\<forall>t\<in>set ts. is_triple t" by auto
  from tr obtain d where t: "t = JObj d" by (auto simp: is_triple_def split: json.splits)
  show ?case
  proof (cases "populated t")
    case True
    from tr t obtain a b where "py_key (subj_of t) = Some a" "py_key (obj_of t) = Some b"
      by (auto simp: is_triple_def)
    moreover from True have "subj_of t \<noteq> JNull" "obj_of t \<noteq> JNull"
      by (auto simp: populated_def)
    ultimately obtain G1 where "add_edge G (subj_of t) (obj_of t) (pred_of t) = Inr G1"
      by (auto simp: add_edge_Inr)
    with Cons.IH[OF rest, of G1] True t show ?thesis
      by (auto simp: build_loop_Cons)
  next
    case False
    with Cons.IH[OF rest, of G] t show ?thesis by (auto simp: build_loop_Cons)
  qed
qed

lemma last_remdups: "xs \<noteq> [] \<Longrightarrow> last (remdups xs) = last xs"
  by (induction xs) (auto simp: last_ConsR)

lemma length_filter_key:
  "distinct (map fst xs) \<Longrightarrow> k \<in> fst ` set xs \<Longrightarrow> length (filter (\<lambda>e. fst e = k) xs) = 1"
proof (induction xs)
  case Nil
  then show ?case by simp
next
  case (Cons x xs)
  show ?case
  proof (cases "fst x = k")
    case True
    with Cons.prems(1) have "k \<notin> fst ` set xs" by auto
    then have "\<forall>e\<in>set xs. fst e \<noteq> k" by force
    then have "filter (\<lambda>e. fst e = k) xs = []"
      by (simp add: filter_empty_conv)
    with True show ?thesis by simp
  next
    case False
    with Cons show ?thesis by auto
  qed
qed

lemma build_graph_JArr: "build_graph (JArr ts) = build_loop empty_graph ts"
  by (simp add: build_graph_def)

lemma edges_mem_iff:
  assumes "build_loop empty_graph ts = Inr G"
  shows "((a, b), l) \<in> set (edges G) \<longleftrightarrow>
     (\<exists>x xs. filter (\<lambda>t. populated t \<and> py_key (subj_of t) = Some a \<and> py_key (obj_of t) = Some b) ts = x # xs
        \<and> l = pred_of (last (x # xs)))"
proof -
  have d: "distinct (map fst (edges G))"
    using build_loop_distinct[OF assms] by (simp add: empty_graph_def)
  have "((a, b), l) \<in> set (edges G) \<longleftrightarrow> map_of (edges G) (a, b) = Some l"
    using d by simp
  also have "\<dots> \<longleftrightarrow> (\<exists>x xs. filter (\<lambda>t. populated t \<and> py_key (subj_of t) = Some a \<and> py_key (obj_of t) = Some b) ts = x # xs
        \<and> l = pred_of (last (x # xs)))"
    unfolding build_loop_label[OF assms]
    by (auto simp: empty_graph_def split: list.splits)
  finally show ?thesis .
qed

lemmas triple_eval = triple_def is_triple_def subj_of_def pred_of_def obj_of_def dict_get_def
  str_def populated_def

lemma build_loop_unpopulated:
  "\<forall>t\<in>set ts. (\<exists>d. t = JObj d) \<and> \<not> populated t \<Longrightarrow> build_loop G ts = Inr G"
  by (induction ts) (auto simp: build_loop_Cons)

section \<open>Tokens and white space\<close>

lemma tokenize_ws: "json_ws c \<Longrightarrow> tokenize (c # cs) = tokenize cs"
  by (simp add: tokenize.simps)

lemma tokenize_token:
  "\<not> json_ws c \<Longrightarrow> tokenize (c # cs) =
     (case next_token (c # cs) of
        None \<Rightarrow> None
      | Some (t, r) \<Rightarrow> map_option (Cons t) (tokenize r))"
  by (simp add: tokenize.simps)

text \<open>a text that has tokens starts with no white space but JSON's\<close>

lemma tokenize_leading_space:
  assumes "tokenize (x # s) = Some ts" "py_isspace x"
  shows "tokenize s = Some ts"
proof (cases "json_ws x")
  case True
  with assms show ?thesis by (simp add: tokenize_ws)
next
  case False
  with assms obtain t r where "next_token (x # s) = Some (t, r)"
    by (auto simp: tokenize_token split: option.splits)
  from next_token_consumed[OF this] obtain c where "x # s = c @ r" "c \<noteq> []"
    "\<not> py_isspace (hd c)" by blast
  then have "hd c = x" by (cases c) auto
  with \<open>\<not> py_isspace (hd c)\<close> assms(2) show ?thesis by simp
qed

lemma tokenize_lstrip:
  "tokenize s = Some ts \<Longrightarrow> tokenize (dropWhile py_isspace s) = Some ts"
  by (induction s) (auto dest: tokenize_leading_space)

lemma tokenize_snoc:
  "tokenize (s @ [x]) = Some ts \<Longrightarrow> py_isspace x \<Longrightarrow> tokenize s = Some ts"
proof (induction s arbitrary: ts rule: length_induct)
  case (1 s)
  note IH = "1.IH"[rule_format]
  show ?case
  proof (cases s)
    case Nil
    from "1.prems"(1) Nil have "tokenize [x] = Some ts" by simp
    from tokenize_leading_space[OF this "1.prems"(2)] Nil show ?thesis by simp
  next
    case (Cons a cs)
    show ?thesis
    proof (cases "json_ws a")
      case True
      with "1.prems" Cons IH[of cs ts] show ?thesis by (simp add: tokenize_ws)
    next
      case False
      with "1.prems"(1) Cons obtain t r ts' where n: "next_token (s @ [x]) = Some (t, r)"
        and r: "tokenize r = Some ts'" and ts: "ts = t # ts'"
        by (auto simp: tokenize_token split: option.splits)
      from next_token_snoc[OF n "1.prems"(2)] obtain r'
        where r': "r = r' @ [x]" "next_token s = Some (t, r')" by blast
      from next_token_length[OF r'(2)] IH[of r' ts'] r r'(1) "1.prems"(2)
      have "tokenize r' = Some ts'" by simp
      with r'(2) Cons False ts show ?thesis by (simp add: tokenize_token)
    qed
  qed
qed

lemma tokenize_rstrip:
  "tokenize s = Some ts \<Longrightarrow> tokenize (rev (dropWhile py_isspace (rev s))) = Some ts"
proof (induction s rule: rev_induct)
  case Nil
  then show ?case by simp
next
  case (snoc x s)
  then show ?case by (auto dest: tokenize_snoc)
qed

lemma tokenize_py_strip: "tokenize s = Some ts \<Longrightarrow> tokenize (py_strip s) = Some ts"
  unfolding py_strip_def by (intro tokenize_rstrip tokenize_lstrip)

section \<open>A text of tokens has no fence\<close>

lemma fence_free_append:
  "c \<noteq> [] \<Longrightarrow> 10 \<notin> set c \<Longrightarrow> last c \<noteq> 96 \<Longrightarrow> (bol \<longrightarrow> hd c \<noteq> 96) \<Longrightarrow>
   fence_free False r \<Longrightarrow> fence_free bol (c @ r)"
proof (induction c arbitrary: bol)
  case Nil
  then show ?case by simp
next
  case (Cons a c)
  show ?case
  proof (cases c)
    case Nil
    with Cons.prems show ?thesis by simp
  next
    case (Cons b c')
    with Cons.prems Cons.IH[of False] show ?thesis by auto
  qed
qed

lemma tokenize_fence_free: "tokenize s = Some ts \<Longrightarrow> fence_free bol s"
proof (induction s arbitrary: ts bol rule: length_induct)
  case (1 s)
  note IH = "1.IH"[rule_format]
  show ?case
  proof (cases s)
    case Nil
    then show ?thesis by simp
  next
    case (Cons a cs)
    show ?thesis
    proof (cases "json_ws a")
      case True
      with "1.prems" Cons IH[of cs ts "a = 10"] show ?thesis
        by (auto simp: tokenize_ws json_ws_def)
    next
      case False
      with "1.prems"(1) Cons obtain t r ts' where n: "next_token s = Some (t, r)"
        and r: "tokenize r = Some ts'"
        by (auto simp: tokenize_token split: option.splits)
      from next_token_consumed[OF n] obtain c where c: "s = c @ r" "c \<noteq> []" "10 \<notin> set c"
        "hd c \<noteq> 96" "last c \<noteq> 96" by blast
      from next_token_length[OF n] IH[of r ts' False] r have "fence_free False r" by simp
      with c show ?thesis by (simp add: fence_free_append)
    qed
  qed
qed

section \<open>Cleaning a text without a fence\<close>

lemma sub_fences_Nil: "sub_fences bol [] = []"
  by (simp add: sub_fences.simps)

lemma sub_fences_copy:
  "c \<noteq> 96 \<Longrightarrow> sub_fences bol (c # cs) = c # sub_fences (c = 10) cs"
  by (subst sub_fences.simps) (simp add: fence_def fence_json_def str_def)

lemma sub_fences_backtick:
  assumes "fence_free False (96 # cs)"
  shows "sub_fences False (96 # cs @ t) = 96 # sub_fences False (cs @ t)"
proof -
  define u where "u = 96 # cs @ t"
  have n: "\<not> (take 3 u = fence \<and> (length u \<le> 3 \<or> hd (drop 3 u) = 10))"
    using assms unfolding u_def
    by (cases cs; cases "tl cs"; cases "tl (tl cs)") (auto simp: fence_def str_def)
  have u: "u \<noteq> []" "hd u = 96" "tl u = cs @ t" by (simp_all add: u_def)
  have "sub_fences False u = hd u # sub_fences (hd u = 10) (tl u)"
    by (subst sub_fences.simps) (simp add: n u(1))
  then show ?thesis using u by (simp add: u_def)
qed

lemma sub_fences_fence_free:
  "fence_free bol s \<Longrightarrow>
   sub_fences bol (s @ t) = s @ sub_fences (if s = [] then bol else last s = 10) t"
proof (induction s arbitrary: bol)
  case Nil
  then show ?case by simp
next
  case (Cons c cs)
  show ?case
  proof (cases "c = 96")
    case False
    with Cons.prems have "fence_free (c = 10) cs" by simp
    from Cons.IH[OF this] False show ?thesis
      by (simp add: sub_fences_copy)
  next
    case True
    with Cons.prems have b: "\<not> bol" and ff: "fence_free False cs" and ne: "cs \<noteq> []"
      by auto
    from Cons.prems True b have "fence_free False (96 # cs)" by simp
    from sub_fences_backtick[OF this, of t] Cons.IH[OF ff] True b ne show ?thesis
      by simp
  qed
qed

text \<open>the fenced reply, cleaned, is the text between the fences, stripped\<close>

lemma py_strip_newlines: "py_strip (10 # s @ [10]) = py_strip s"
proof -
  have ws: "py_isspace 10" by (simp add: py_isspace_def)
  show ?thesis
  proof (cases "dropWhile py_isspace s = []")
    case True
    then have "\<forall>x\<in>set s. py_isspace x" by (simp only: dropWhile_eq_Nil_conv)
    then have "\<forall>x\<in>set (10 # s @ [10]). py_isspace x" using ws by simp
    then have e: "dropWhile py_isspace (10 # s @ [10]) = []" by (simp only: dropWhile_eq_Nil_conv)
    show ?thesis unfolding py_strip_def e True by simp
  next
    case False
    then have "dropWhile py_isspace (s @ [10]) = dropWhile py_isspace s @ [10]"
      by (auto simp: dropWhile_append dropWhile_eq_Nil_conv)
    with ws show ?thesis by (simp add: py_strip_def)
  qed
qed

lemma py_strip_fenced:
  "py_strip (fence_json @ 10 # s @ 10 # fence) = fence_json @ 10 # s @ 10 # fence"
proof -
  have "\<not> py_isspace 96" by (simp add: py_isspace_def)
  then show ?thesis
    by (simp add: py_strip_def fence_json_def fence_def str_def)
qed

lemma sub_fences_fenced:
  assumes "fence_free True s"
  shows "sub_fences True (fence_json @ 10 # s @ 10 # fence) = 10 # s @ [10]"
proof -
  have 1: "sub_fences True (fence_json @ 10 # s @ 10 # fence) = sub_fences False (10 # s @ 10 # fence)"
    by (subst sub_fences.simps) (simp add: fence_json_def str_def)
  have 2: "sub_fences False (10 # s @ 10 # fence) = 10 # sub_fences True (s @ 10 # fence)"
    by (simp add: sub_fences_copy)
  have 3: "sub_fences True (s @ 10 # fence) = s @ sub_fences (if s = [] then True else last s = 10) (10 # fence)"
    by (rule sub_fences_fence_free[OF assms])
  have 4: "sub_fences b (10 # fence) = 10 # sub_fences True fence" for b
    by (simp add: sub_fences_copy)
  have 5: "sub_fences True fence = []"
    by (subst sub_fences.simps) (simp add: fence_json_def fence_def str_def sub_fences_Nil)
  show ?thesis unfolding 1 2 3 4 5 by simp
qed

lemma clean_text_fenced:
  assumes "fence_free True s"
  shows "clean_text (py_strip (fence_json @ 10 # s @ 10 # fence)) = py_strip s"
  unfolding clean_text_def py_strip_fenced sub_fences_fenced[OF assms]
  by (rule py_strip_newlines)

section \<open>The decoder and the tokens of a text\<close>

lemma decode_text_Nil:
  "decode_text ip st [] =
     (case st of
        (Finished v, []) \<Rightarrow> Inr v
      | _ \<Rightarrow> Inl (decode_error ip (error_site st [])))"
  by (simp add: decode_text.simps)

lemma decode_text_ws: "json_ws c \<Longrightarrow> decode_text ip st (c # cs) = decode_text ip st cs"
  by (simp add: decode_text.simps)

lemma decode_text_token:
  "\<not> json_ws c \<Longrightarrow> decode_text ip st (c # cs) =
     (case next_token (c # cs) of
        None \<Rightarrow> Inl (decode_error ip (error_site st (c # cs)))
      | Some (t, r) \<Rightarrow>
          (case parse_step st t of
             None \<Rightarrow> Inl (decode_error ip (error_site st (c # cs)))
           | Some st' \<Rightarrow>
               (case limit_error ip (snd st) (c # cs) t of
                  Some e \<Rightarrow> Inl e
                | None \<Rightarrow> decode_text ip st' r)))"
  by (simp add: decode_text.simps)

text \<open>a text that is decoded goes on with a token that the grammar and the limits accept\<close>

lemma decode_text_Inr_token:
  assumes "\<not> json_ws c" "decode_text ip st (c # cs) = Inr v"
  shows "\<exists>t r st'. next_token (c # cs) = Some (t, r) \<and> parse_step st t = Some st' \<and>
     limit_error ip (snd st) (c # cs) t = None \<and> decode_text ip st' r = Inr v"
  using assms by (auto simp: decode_text_token split: option.splits)

text \<open>a text that is decoded is a text of the grammar, and its value is the decoded one\<close>

lemma decode_text_Inr_tokens:
  "decode_text ip st s = Inr v \<Longrightarrow> \<exists>ts. tokenize s = Some ts \<and> parse_tokens st ts = Some v"
proof (induction s arbitrary: st rule: length_induct)
  case (1 s)
  note IH = "1.IH"[rule_format]
  show ?case
  proof (cases s)
    case Nil
    with "1.prems" show ?thesis
      by (cases "(st, [] :: tok list)" rule: parse_tokens.cases)
         (auto simp: tokenize.simps decode_text_Nil split: expect.splits list.splits)
  next
    case (Cons c cs)
    show ?thesis
    proof (cases "json_ws c")
      case True
      with "1.prems" Cons have "decode_text ip st cs = Inr v" by (simp add: decode_text_ws)
      from IH[OF _ this] Cons True show ?thesis by (simp add: tokenize_ws)
    next
      case False
      from decode_text_Inr_token[OF False] "1.prems" Cons obtain t r st' where
        nt: "next_token (c # cs) = Some (t, r)" and ps: "parse_step st t = Some st'"
        and d: "decode_text ip st' r = Inr v"
        by blast
      from next_token_length[OF nt] Cons have "length r < length s" by simp
      from IH[OF this d] obtain ts' where "tokenize r = Some ts'" "parse_tokens st' ts' = Some v"
        by blast
      with False Cons nt ps show ?thesis by (cases st) (simp add: tokenize_token)
    qed
  qed
qed

lemma json_loads_json_decode: "json_loads ip s = Inr v \<Longrightarrow> json_decode s = Some v"
  unfolding json_loads_def json_decode_def by (auto dest: decode_text_Inr_tokens)

lemma json_decode_None_json_loads: "json_decode s = None \<Longrightarrow> \<exists>e. json_loads ip s = Inl e"
  by (cases "json_loads ip s") (auto dest: json_loads_json_decode)

section \<open>The decoder and white space around the text\<close>

lemma starts_with_after_word: "starts_with w s = (after_word w s \<noteq> None)"
  by (simp add: starts_with_def after_word_def)

lemma constant_text_snoc: "py_isspace x \<Longrightarrow> constant_text (s @ [x]) = constant_text s"
proof -
  assume "py_isspace x"
  from py_isspace_range[OF this]
  have "x \<notin> set (str ''NaN'')" "x \<notin> set (str ''Infinity'')" "x \<notin> set (str ''-Infinity'')"
    by (auto simp: str_def)
  then show ?thesis by (simp add: constant_text_def starts_with_after_word after_word_snoc)
qed

lemma limit_error_snoc:
  "py_isspace x \<Longrightarrow> limit_error ip stack (s @ [x]) t = limit_error ip stack s t"
  by (simp add: limit_error_def constant_text_snoc)

lemma decode_text_leading_space:
  assumes "decode_text ip st (x # s) = Inr v" "py_isspace x"
  shows "decode_text ip st s = Inr v"
proof (cases "json_ws x")
  case True
  with assms show ?thesis by (simp add: decode_text_ws)
next
  case False
  from decode_text_Inr_token[OF False assms(1)] obtain t r
    where "next_token (x # s) = Some (t, r)" by blast
  from next_token_consumed[OF this] obtain c where "x # s = c @ r" "c \<noteq> []"
    "\<not> py_isspace (hd c)" by blast
  then have "hd c = x" by (cases c) auto
  with \<open>\<not> py_isspace (hd c)\<close> assms(2) show ?thesis by simp
qed

lemma decode_text_lstrip:
  "decode_text ip st s = Inr v \<Longrightarrow> decode_text ip st (dropWhile py_isspace s) = Inr v"
  by (induction s) (auto dest: decode_text_leading_space)

lemma decode_text_snoc:
  "decode_text ip st (s @ [x]) = Inr v \<Longrightarrow> py_isspace x \<Longrightarrow> decode_text ip st s = Inr v"
proof (induction s arbitrary: st rule: length_induct)
  case (1 s)
  note IH = "1.IH"[rule_format]
  show ?case
  proof (cases s)
    case Nil
    from "1.prems"(1) Nil have "decode_text ip st [x] = Inr v" by simp
    from decode_text_leading_space[OF this "1.prems"(2)] Nil show ?thesis by simp
  next
    case (Cons a cs)
    show ?thesis
    proof (cases "json_ws a")
      case True
      with "1.prems" Cons IH[of cs st] show ?thesis by (simp add: decode_text_ws)
    next
      case False
      from "1.prems"(1) Cons have "decode_text ip st (a # (cs @ [x])) = Inr v" by simp
      from decode_text_Inr_token[OF False this] Cons obtain t r st' where
        n: "next_token (s @ [x]) = Some (t, r)" and ps: "parse_step st t = Some st'"
        and le: "limit_error ip (snd st) (s @ [x]) t = None" and d: "decode_text ip st' r = Inr v"
        by auto
      from next_token_snoc[OF n "1.prems"(2)] obtain r'
        where r': "r = r' @ [x]" "next_token s = Some (t, r')" by blast
      from next_token_length[OF r'(2)] IH[of r' st'] d r'(1) "1.prems"(2)
      have "decode_text ip st' r' = Inr v" by simp
      moreover from le "1.prems"(2) have "limit_error ip (snd st) s t = None"
        by (simp add: limit_error_snoc)
      ultimately show ?thesis using r'(2) Cons False ps
        by (simp add: decode_text_token)
    qed
  qed
qed

lemma decode_text_rstrip:
  "decode_text ip st s = Inr v \<Longrightarrow> decode_text ip st (rev (dropWhile py_isspace (rev s))) = Inr v"
proof (induction s rule: rev_induct)
  case Nil
  then show ?case by simp
next
  case (snoc x s)
  then show ?case by (auto dest: decode_text_snoc)
qed

lemma json_loads_py_strip: "json_loads ip s = Inr v \<Longrightarrow> json_loads ip (py_strip s) = Inr v"
  unfolding py_strip_def json_loads_def by (intro decode_text_rstrip decode_text_lstrip)

section \<open>Texts that meet a limit of the interpreter\<close>

text \<open>A text of \<open>n\<close> opening brackets, and an opening bracket before \<open>n + 1\<close> digits \<open>1\<close>.\<close>

lemma decode_text_open_arrays:
  "e = Value \<or> e = Value_or_end \<Longrightarrow> length stack \<le> nesting_room ip \<Longrightarrow>
   decode_text ip (e, stack) (replicate n 91) =
     Inl (if nesting_room ip < length stack + n then RecursionError
          else decode_error ip In_raw_decode)"
proof (induction n arbitrary: e stack)
  case 0
  then show ?case by (auto simp: decode_text_Nil error_site_def)
next
  case (Suc n)
  have nt: "next_token (91 # replicate n 91) = Some (T_lbracket, replicate n 91)"
    by (simp add: next_token_def punct_def)
  have ws: "\<not> json_ws 91" by (simp add: json_ws_def)
  have ps: "parse_step (e, stack) T_lbracket = Some (Value_or_end, In_array [] # stack)"
    using Suc.prems by auto
  show ?case
  proof (cases "nesting_room ip \<le> length stack")
    case True
    with nt ws ps Suc.prems show ?thesis by (simp add: decode_text_token limit_error_def)
  next
    case False
    with nt ws ps Suc.IH[of Value_or_end "In_array [] # stack"] show ?thesis
      by (simp add: decode_text_token limit_error_def)
  qed
qed

lemma decimal_digits_gt: "10 ^ n \<le> m \<Longrightarrow> n < decimal_digits m"
proof (induction n arbitrary: m)
  case 0
  then show ?case by (subst decimal_digits.simps) simp
next
  case (Suc n)
  have "(1::nat) \<le> 10 ^ n" by simp
  with Suc.prems have m: "10 \<le> m" unfolding power_Suc by linarith
  from Suc.prems have "10 ^ n \<le> m div 10" by simp
  from Suc.IH[OF this] m show ?case
    by (subst decimal_digits.simps) simp
qed

lemma foldl_ones:
  "a * 10 ^ n \<le> foldl (\<lambda>a c. 10 * a + (c - 48)) a (replicate n (49::nat))"
proof (induction n arbitrary: a)
  case 0
  then show ?case by simp
next
  case (Suc n)
  have "a * 10 ^ Suc n \<le> (10 * a + 1) * 10 ^ n" by (simp add: algebra_simps)
  also have "\<dots> \<le> foldl (\<lambda>a c. 10 * a + (c - 48)) (10 * a + 1) (replicate n (49::nat))"
    by (rule Suc.IH)
  finally show ?case by simp
qed

lemma digits_val_ones: "10 ^ n \<le> digits_val (49 # replicate n 49)"
  using foldl_ones[of 1 n] by (simp add: digits_val_def)

lemma next_token_ones:
  "next_token (49 # replicate n 49) =
     Some (T_value (JInt (int (digits_val (49 # replicate n 49)))), [])"
proof -
  have d: "is_digit 49" by (simp add: is_digit_def)
  have i: "lex_int (49 # replicate n 49) = Some (False, 49 # replicate n 49, [])"
    using d by (simp add: lex_int_def)
  have n: "lex_number (49 # replicate n 49) =
      Some (JInt (int (digits_val (49 # replicate n 49))), [])"
    by (simp add: lex_number_def i lex_frac_def lex_exp_def number_value_def)
  show ?thesis
    by (simp add: next_token_def punct_def lex_scalar_def after_word_def str_def n)
qed

lemma json_loads_long_int:
  assumes "0 < nesting_room ip" "0 < int_max_str_digits ip" "int_max_str_digits ip \<le> n"
  shows "json_loads ip (91 # 49 # replicate n 49) = Inl ValueError"
proof -
  have l: "int_max_str_digits ip < decimal_digits (digits_val (49 # replicate n 49))"
    using decimal_digits_gt[OF digits_val_ones[of n]] assms(3) by simp
  have c: "\<not> constant_text (49 # replicate n 49)"
    by (simp add: constant_text_def starts_with_def str_def)
  have 1: "decode_text ip (Value, []) (91 # 49 # replicate n 49)
           = decode_text ip (Value_or_end, [In_array []]) (49 # replicate n 49)"
    using assms(1)
    by (simp add: decode_text_token json_ws_def next_token_def punct_def limit_error_def)
  have 2: "decode_text ip (Value_or_end, [In_array []]) (49 # replicate n 49) = Inl ValueError"
    using l assms(2) c
    by (simp add: decode_text_token json_ws_def next_token_ones limit_error_def)
  show ?thesis by (simp add: json_loads_def 1 2)
qed

lemma tokenize_open_arrays: "tokenize (replicate n 91) = Some (replicate n T_lbracket)"
proof (induction n)
  case 0
  then show ?case by (simp add: tokenize.simps)
next
  case (Suc n)
  then show ?case
    by (simp add: tokenize_token json_ws_def next_token_def punct_def)
qed

lemma parse_tokens_open_arrays:
  "e = Value \<or> e = Value_or_end \<Longrightarrow> parse_tokens (e, stack) (replicate n T_lbracket) = None"
  by (induction n arbitrary: e stack) auto

lemma json_decode_open_arrays: "json_decode (replicate n 91) = None"
  by (simp add: json_decode_def tokenize_open_arrays parse_tokens_open_arrays)

lemma json_decode_long_int: "json_decode (91 # 49 # replicate n 49) = None"
proof -
  have 1: "tokenize (49 # replicate n 49)
        = Some [T_value (JInt (int (digits_val (49 # replicate n 49))))]"
    by (simp add: tokenize_token json_ws_def next_token_ones tokenize.simps[of "[]"])
  have "tokenize (91 # 49 # replicate n 49)
        = Some [T_lbracket, T_value (JInt (int (digits_val (49 # replicate n 49))))]"
    by (simp add: tokenize_token[of 91] json_ws_def next_token_def punct_def 1)
  then show ?thesis by (simp add: json_decode_def)
qed

section \<open>Texts that cleaning leaves as they are\<close>

lemma sub_fences_no_backtick: "96 \<notin> set s \<Longrightarrow> sub_fences bol s = s"
  by (induction s arbitrary: bol) (simp_all add: sub_fences_Nil sub_fences_copy)

lemma py_strip_id:
  "s \<noteq> [] \<Longrightarrow> \<not> py_isspace (hd s) \<Longrightarrow> \<not> py_isspace (last s) \<Longrightarrow> py_strip s = s"
proof -
  assume a: "s \<noteq> []" "\<not> py_isspace (hd s)" "\<not> py_isspace (last s)"
  from a have 1: "dropWhile py_isspace s = s" by (cases s) auto
  from a have "rev s \<noteq> []" "\<not> py_isspace (hd (rev s))" by (simp_all add: hd_rev)
  then have 2: "dropWhile py_isspace (rev s) = rev s" by (cases "rev s") auto
  show ?thesis by (simp add: py_strip_def 1 2)
qed

section \<open>Evaluating the functions on concrete inputs\<close>

lemmas lex_eval = json_loads_def decode_text.simps error_site_def decode_error_def
  limit_error_def constant_text_def starts_with_def decimal_digits.simps default_limits_def json_decode_def
  tokenize.simps next_token_def punct_def json_ws_def
  lex_scalar_def after_word_def lex_number_def lex_int_def lex_frac_def lex_exp_def
  number_value_def is_digit_def digits_val_def str_def backslash_def hex_val_def

lemmas clean_eval = clean_text_def py_strip_def py_isspace_def sub_fences.simps fence_def
  fence_json_def str_def

section \<open>What the stages leave alone\<close>

lemma save_upload_frame:
  "save_upload sv f w = (p, w') \<Longrightarrow>
   generated w' = generated w \<and> (\<forall>q. Image_saved q \<in> set (trace w') \<longrightarrow> Image_saved q \<in> set (trace w))"
  by (auto simp: save_upload_def uuid4_def Let_def)

lemma extract_text_from_pdf_frame:
  "extract_text_from_pdf sv p w = (r, w') \<Longrightarrow>
   generated w' = generated w \<and> (\<forall>q. Image_saved q \<in> set (trace w') \<longrightarrow> Image_saved q \<in> set (trace w))"
  by (auto simp: extract_text_from_pdf_def Let_def split: option.splits sum.splits)

lemma extract_knowledge_triples_frame:
  "extract_knowledge_triples sv text w = (r, w') \<Longrightarrow>
   generated w' = generated w \<and> (\<forall>q. Image_saved q \<in> set (trace w') \<longrightarrow> Image_saved q \<in> set (trace w))"
  by (auto simp: extract_knowledge_triples_def Let_def split: sum.splits if_splits)

section \<open>The claims\<close>

subsection \<open>C1: no triples, no image\<close>

text \<open>
  Claim C1. When a file was uploaded, its text was extracted and the Triple Extractor
  returned the empty list, \<open>upload_pdf\<close> answers with status 500 and the payload
  \<open>{"error": "No triples extracted from PDF"}\<close>; the generated folder is what it was
  before the request and no image was saved during it: the Graph Builder and Renderer
  did not run.
\<close>

theorem upload_no_triples:
  assumes "map_of (files req) (str ''pdf'') = Some f" and "filename f \<noteq> []"
    and "save_upload sv f w = (pdf_path, w1)"
    and "extract_text_from_pdf sv pdf_path w1 = (Inr text, w2)"
    and "extract_knowledge_triples sv text w2 = (Inr (JArr []), w3)"
  shows "upload_pdf sv req w =
       (Inr \<lparr>status = 500,
             body = JObj [(str ''error'', JStr (str ''No triples extracted from PDF''))]\<rparr>, w3) \<and>
     generated w3 = generated w \<and>
     (\<forall>q. Image_saved q \<in> set (trace w3) \<longrightarrow> Image_saved q \<in> set (trace w))"
proof -
  have "upload_pdf sv req w =
       (Inr \<lparr>status = 500,
             body = JObj [(str ''error'', JStr (str ''No triples extracted from PDF''))]\<rparr>, w3)"
    using assms by (simp add: upload_pdf_def respond_def error_response_def)
  moreover have "generated w3 = generated w \<and>
     (\<forall>q. Image_saved q \<in> set (trace w3) \<longrightarrow> Image_saved q \<in> set (trace w))"
    using save_upload_frame[OF assms(3)] extract_text_from_pdf_frame[OF assms(4)]
      extract_knowledge_triples_frame[OF assms(5)]
    by simp
  ultimately show ?thesis by simp
qed

text \<open>The theorem for the stubbed model that replies \<open>not json\<close>.\<close>

theorem upload_no_triples_witness:
  "fst (upload_pdf (stub_services (str ''not json'')) pdf_request empty_world) =
     Inr \<lparr>status = 500,
          body = JObj [(str ''error'', JStr (str ''No triples extracted from PDF''))]\<rparr> \<and>
   generated (snd (upload_pdf (stub_services (str ''not json'')) pdf_request empty_world)) =
     Map.empty"
proof -
  let ?sv = "stub_services (str ''not json'')"
  let ?f = "\<lparr>filename = str ''a.pdf'', bytes_of = [37, 80, 68, 70]\<rparr>"
  have 1: "map_of (files pdf_request) (str ''pdf'') = Some ?f"
    by (simp add: pdf_request_def)
  have 2: "filename ?f \<noteq> []" by (simp add: str_def)
  obtain p w1 where 3: "save_upload ?sv ?f empty_world = (p, w1)" by force
  then have up: "uploads w1 p = Some [37, 80, 68, 70]"
    by (auto simp: save_upload_def uuid4_def Let_def)
  obtain w2 where 4: "extract_text_from_pdf ?sv p w1 = (Inr (str ''Alice knows Bob.''), w2)"
    using up by (simp add: extract_text_from_pdf_def Let_def stub_services_def)
  have c: "clean_text (py_strip (str ''not json'')) = str ''not json''"
    by (simp add: clean_eval)
  have n: "json_loads default_limits (clean_text (py_strip (str ''not json''))) = Inl JSONDecodeError"
    unfolding c by (simp add: lex_eval)
  obtain w3 where 5: "extract_knowledge_triples ?sv (str ''Alice knows Bob.'') w2 = (Inr (JArr []), w3)"
    using n by (simp add: extract_knowledge_triples_def Let_def stub_services_def)
  from upload_no_triples[OF 1 2 3 4 5] show ?thesis
    by (simp add: empty_world_def)
qed

subsection \<open>C2: not every reply that is not JSON gives the empty list\<close>

text \<open>
  Claim C2 says that for every reply whose cleaned form is not valid JSON
  \<open>extract_knowledge_triples\<close> returns the empty list and raises nothing. The
  \<open>except\<close> clause of line 58 is there for that, and it catches \<open>JSONDecodeError\<close> only.
  A reply of 1000 opening brackets is not valid JSON and cleaning leaves it as it is;
  \<open>json.loads\<close> runs out of recursion depth in it before it reaches the end, and the
  \<open>RecursionError\<close> leaves the function. An opening bracket before 4301 digits \<open>1\<close> is
  not valid JSON either, and there \<open>int\<close> refuses the literal with a \<open>ValueError\<close>,
  which leaves the function too. Both times the interpreter has its default limits.
\<close>

theorem extract_raises_on_unparsable_reply:
  "json_decode (clean_text (py_strip (replicate 1000 91))) = None \<and>
   fst (extract_knowledge_triples (stub_services (replicate 1000 91))
          (str ''Alice knows Bob.'') empty_world) = Inl RecursionError \<and>
   json_decode (clean_text (py_strip (91 # 49 # replicate 4300 49))) = None \<and>
   fst (extract_knowledge_triples (stub_services (91 # 49 # replicate 4300 49))
          (str ''Alice knows Bob.'') empty_world) = Inl ValueError"
proof -
  have ns: "\<not> py_isspace 91" "\<not> py_isspace 49" by (simp_all add: py_isspace_def)
  have s1: "py_strip (replicate 1000 91) = replicate 1000 91"
    using ns by (intro py_strip_id) simp_all
  have c1: "clean_text (replicate 1000 91) = replicate 1000 91"
    by (simp add: clean_text_def sub_fences_no_backtick s1)
  have j1: "json_loads default_limits (replicate 1000 91) = Inl RecursionError"
    unfolding json_loads_def
    by (subst decode_text_open_arrays) (simp_all add: default_limits_def)
  have s2: "py_strip (91 # 49 # replicate 4300 49) = 91 # 49 # replicate 4300 49"
    using ns by (intro py_strip_id) simp_all
  have c2: "clean_text (91 # 49 # replicate 4300 49) = 91 # 49 # replicate 4300 49"
    by (simp add: clean_text_def sub_fences_no_backtick s2)
  have j2: "json_loads default_limits (91 # 49 # replicate 4300 49) = Inl ValueError"
    by (rule json_loads_long_int) (simp_all add: default_limits_def)
  show ?thesis
    by (simp add: extract_knowledge_triples_def Let_def stub_services_def s1 c1 j1 s2 c2 j2
        json_decode_open_arrays json_decode_long_int)
qed

text \<open>
  What the \<open>except\<close> clause does absorb: when \<open>json.loads\<close> raises \<open>JSONDecodeError\<close>,
  the message and the stripped reply are printed and the empty list is returned.
\<close>

lemma extract_absorbs_JSONDecodeError:
  assumes "generate_content sv (prompt_of text) = Inr reply"
    and "json_loads (interp sv) (clean_text (py_strip reply)) = Inl JSONDecodeError"
  shows "extract_knowledge_triples sv text w =
     (Inr (JArr []),
      w\<lparr>trace := trace w @ [Model_called (prompt_of text), Printed parse_failed_message,
                             Printed (py_strip reply)]\<rparr>)"
  using assms by (simp add: extract_knowledge_triples_def Let_def)

subsection \<open>C3: edges and nodes of the built graph\<close>

text \<open>
  Claim C3. For every list of triples, \<open>build_and_save_graph\<close> builds a graph whose
  edges are exactly the (subject, object) pairs of the triples whose subject, predicate
  and object are all truthy, every edge carrying the predicate of such a triple on that
  pair, and whose nodes are exactly the subjects and objects of those triples: a triple
  with a missing or empty field adds neither an edge nor a node.
\<close>

theorem build_graph_edges_and_nodes:
  assumes "\<forall>t\<in>set ts. is_triple t"
  shows "\<exists>G. build_graph (JArr ts) = Inr G \<and>
     (\<forall>a b. (a, b) \<in> fst ` set (edges G) \<longleftrightarrow>
        (\<exists>t\<in>set ts. populated t \<and> py_key (subj_of t) = Some a \<and> py_key (obj_of t) = Some b)) \<and>
     (\<forall>a b l. ((a, b), l) \<in> set (edges G) \<longrightarrow>
        (\<exists>t\<in>set ts. populated t \<and> py_key (subj_of t) = Some a \<and> py_key (obj_of t) = Some b
           \<and> pred_of t = l)) \<and>
     (\<forall>n. n \<in> set (nodes G) \<longleftrightarrow>
        (\<exists>t\<in>set ts. populated t \<and> (py_key (subj_of t) = Some n \<or> py_key (obj_of t) = Some n)))"
proof -
  from build_loop_triples[OF assms] obtain G where G: "build_loop empty_graph ts = Inr G"
    by blast
  have e: "\<forall>a b. (a, b) \<in> fst ` set (edges G) \<longleftrightarrow>
        (\<exists>t\<in>set ts. populated t \<and> py_key (subj_of t) = Some a \<and> py_key (obj_of t) = Some b)"
    unfolding build_loop_edge_keys[OF G] by (simp add: empty_graph_def)
  have l: "\<forall>a b l. ((a, b), l) \<in> set (edges G) \<longrightarrow>
        (\<exists>t\<in>set ts. populated t \<and> py_key (subj_of t) = Some a \<and> py_key (obj_of t) = Some b
           \<and> pred_of t = l)"
  proof (intro allI impI)
    fix a b l assume "((a, b), l) \<in> set (edges G)"
    then obtain x xs where f: "filter (\<lambda>t. populated t \<and> py_key (subj_of t) = Some a \<and> py_key (obj_of t) = Some b) ts = x # xs"
      and l: "l = pred_of (last (x # xs))"
      unfolding edges_mem_iff[OF G] by blast
    have "last (x # xs) \<in> set (filter (\<lambda>t. populated t \<and> py_key (subj_of t) = Some a \<and> py_key (obj_of t) = Some b) ts)"
      unfolding f by (rule last_in_set) simp
    with l show "\<exists>t\<in>set ts. populated t \<and> py_key (subj_of t) = Some a \<and> py_key (obj_of t) = Some b
           \<and> pred_of t = l"
      by auto
  qed
  have n: "\<forall>n. n \<in> set (nodes G) \<longleftrightarrow>
        (\<exists>t\<in>set ts. populated t \<and> (py_key (subj_of t) = Some n \<or> py_key (obj_of t) = Some n))"
    unfolding build_loop_nodes[OF G] by (simp add: empty_graph_def)
  from G e l n show ?thesis
    unfolding build_graph_JArr by blast
qed

text \<open>The theorem at a concrete list.\<close>

theorem build_graph_edges_and_nodes_witness:
  "is_triple (triple ''A'' ''knows'' ''B'') \<and> is_triple (triple ''C'' ''has'' '''') \<and>
   (\<exists>G. build_graph (JArr [triple ''A'' ''knows'' ''B'', triple ''C'' ''has'' '''']) = Inr G \<and>
      set (nodes G) = {NStr (str ''A''), NStr (str ''B'')} \<and>
      set (edges G) = {((NStr (str ''A''), NStr (str ''B'')), JStr (str ''knows''))})"
proof -
  let ?t1 = "triple ''A'' ''knows'' ''B''" and ?t2 = "triple ''C'' ''has'' ''''"
  have t1: "is_triple ?t1" and t2: "is_triple ?t2"
    by (simp_all add: triple_eval)
  have p1: "populated ?t1" and p2: "\<not> populated ?t2"
    by (simp_all add: triple_eval)
  have k: "py_key (subj_of ?t1) = Some (NStr (str ''A''))"
    "py_key (obj_of ?t1) = Some (NStr (str ''B''))" "pred_of ?t1 = JStr (str ''knows'')"
    by (simp_all add: triple_eval)
  have h: "\<forall>t\<in>set [?t1, ?t2]. is_triple t" using t1 t2 by simp
  from build_graph_edges_and_nodes[OF h] obtain G
    where G: "build_graph (JArr [?t1, ?t2]) = Inr G"
      and e: "\<forall>a b. (a, b) \<in> fst ` set (edges G) \<longleftrightarrow>
        (\<exists>t\<in>set [?t1, ?t2]. populated t \<and> py_key (subj_of t) = Some a \<and> py_key (obj_of t) = Some b)"
      and l: "\<forall>a b l. ((a, b), l) \<in> set (edges G) \<longrightarrow>
        (\<exists>t\<in>set [?t1, ?t2]. populated t \<and> py_key (subj_of t) = Some a \<and> py_key (obj_of t) = Some b
           \<and> pred_of t = l)"
      and n: "\<forall>n. n \<in> set (nodes G) \<longleftrightarrow>
        (\<exists>t\<in>set [?t1, ?t2]. populated t \<and> (py_key (subj_of t) = Some n \<or> py_key (obj_of t) = Some n))"
    by blast
  have "x \<in> set (nodes G) \<longleftrightarrow> x = NStr (str ''A'') \<or> x = NStr (str ''B'')" for x
    using n[rule_format, of x] p1 p2 k by (simp add: eq_commute)
  then have nodes: "set (nodes G) = {NStr (str ''A''), NStr (str ''B'')}"
    by blast
  have "(NStr (str ''A''), NStr (str ''B'')) \<in> fst ` set (edges G)"
    using e[rule_format, of "NStr (str ''A'')" "NStr (str ''B'')"] p1 k by simp
  then obtain l0 where l0: "((NStr (str ''A''), NStr (str ''B'')), l0) \<in> set (edges G)"
    by force
  have "x = ((NStr (str ''A''), NStr (str ''B'')), JStr (str ''knows''))" if "x \<in> set (edges G)" for x
    using l[rule_format, of "fst (fst x)" "snd (fst x)" "snd x"] that p1 p2 k
    by (cases x) (auto simp: prod_eq_iff)
  with l0 have "set (edges G) = {((NStr (str ''A''), NStr (str ''B'')), JStr (str ''knows''))}"
    by blast
  with t1 t2 G nodes show ?thesis by blast
qed

subsection \<open>C4: a fenced reply parses like the text between the fences\<close>

text \<open>
  Claim C4. For every text \<open>A\<close> that \<open>json.loads\<close> accepts, so for every well-formed
  JSON array within the limits of the interpreter, whatever they are, stripping and cleaning the fenced form, \<open>```json\<close>, a newline, \<open>A\<close>, a
  newline, \<open>```\<close>, and parsing the result gives the value that parsing \<open>A\<close> gives.
\<close>

theorem fenced_reply_parses_like_bare:
  assumes "json_loads ip A = Inr v"
  shows "json_loads ip (clean_text (py_strip (fence_json @ 10 # A @ 10 # fence))) = Inr v"
proof -
  from assms obtain ts where "tokenize A = Some ts"
    unfolding json_loads_def by (blast dest: decode_text_Inr_tokens)
  then have "fence_free True A" by (rule tokenize_fence_free)
  then have "clean_text (py_strip (fence_json @ 10 # A @ 10 # fence)) = py_strip A"
    by (rule clean_text_fenced)
  with json_loads_py_strip[OF assms] show ?thesis by simp
qed

text \<open>The theorem for an array of one triple.\<close>

theorem fenced_reply_parses_like_bare_witness:
  "json_loads default_limits (str ''[{'' @ [34] @ str ''subject'' @ [34] @ str '': '' @ [34] @ str ''A'' @ [34]
      @ str '', '' @ [34] @ str ''predicate'' @ [34] @ str '': '' @ [34] @ str ''knows'' @ [34]
      @ str '', '' @ [34] @ str ''object'' @ [34] @ str '': '' @ [34] @ str ''B'' @ [34]
      @ str ''}]'') = Inr (JArr [triple ''A'' ''knows'' ''B'']) \<and>
   json_loads default_limits (clean_text (py_strip (fence_json @ 10 #
     (str ''[{'' @ [34] @ str ''subject'' @ [34] @ str '': '' @ [34] @ str ''A'' @ [34]
      @ str '', '' @ [34] @ str ''predicate'' @ [34] @ str '': '' @ [34] @ str ''knows'' @ [34]
      @ str '', '' @ [34] @ str ''object'' @ [34] @ str '': '' @ [34] @ str ''B'' @ [34]
      @ str ''}]'') @ 10 # fence))) = Inr (JArr [triple ''A'' ''knows'' ''B''])"
proof -
  let ?A = "str ''[{'' @ [34] @ str ''subject'' @ [34] @ str '': '' @ [34] @ str ''A'' @ [34]
      @ str '', '' @ [34] @ str ''predicate'' @ [34] @ str '': '' @ [34] @ str ''knows'' @ [34]
      @ str '', '' @ [34] @ str ''object'' @ [34] @ str '': '' @ [34] @ str ''B'' @ [34]
      @ str ''}]''"
  have a: "json_loads default_limits ?A = Inr (JArr [triple ''A'' ''knows'' ''B''])"
    by (simp add: lex_eval triple_def)
  from fenced_reply_parses_like_bare[OF a] a show ?thesis by simp
qed

subsection \<open>C5: one edge per (subject, object) pair, the last label survives\<close>

text \<open>
  Claim C5. When fully populated triples share a (subject, object) pair, the built graph
  has exactly one edge from that subject to that object, and its label is the predicate
  of the last such triple of the input: \<open>t\<close> below is that triple, no populated triple
  after it (in \<open>post\<close>) has the pair, and any number of them may come before it
  (in \<open>pre\<close>).
\<close>

theorem build_graph_last_label_wins:
  assumes "\<forall>t\<in>set (pre @ t # post). is_triple t"
    and "populated t"
    and "py_key (subj_of t) = Some a" and "py_key (obj_of t) = Some b"
    and "\<forall>t'\<in>set post. \<not> (populated t' \<and> py_key (subj_of t') = Some a \<and> py_key (obj_of t') = Some b)"
  shows "\<exists>G. build_graph (JArr (pre @ t # post)) = Inr G \<and>
     length (filter (\<lambda>e. fst e = (a, b)) (edges G)) = 1 \<and>
     (\<forall>l. ((a, b), l) \<in> set (edges G) \<longleftrightarrow> l = pred_of t)"
proof -
  let ?P = "\<lambda>t. populated t \<and> py_key (subj_of t) = Some a \<and> py_key (obj_of t) = Some b"
  from build_loop_triples[OF assms(1)] obtain G
    where G: "build_loop empty_graph (pre @ t # post) = Inr G"
    by blast
  have post: "filter ?P post = []"
    using assms(5) by (auto simp: filter_empty_conv)
  have f: "filter ?P (pre @ t # post) = filter ?P pre @ [t]"
    using assms(2-4) post by simp
  have mem: "\<forall>l. ((a, b), l) \<in> set (edges G) \<longleftrightarrow> l = pred_of t"
    unfolding edges_mem_iff[OF G] f
    by (cases "filter ?P pre") auto
  have d: "distinct (map fst (edges G))"
    using build_loop_distinct[OF G] by (simp add: empty_graph_def)
  have "\<exists>l. ((a, b), l) \<in> set (edges G)" using mem by blast
  then have "(a, b) \<in> fst ` set (edges G)" by force
  with d have one: "length (filter (\<lambda>e. fst e = (a, b)) (edges G)) = 1"
    by (rule length_filter_key)
  from G one mem show ?thesis
    unfolding build_graph_JArr by blast
qed

text \<open>The theorem at a concrete list.\<close>

theorem build_graph_last_label_wins_witness:
  "\<exists>G. build_graph (JArr [triple ''A'' ''knows'' ''B'', triple ''A'' ''likes'' ''B'',
                          triple ''C'' ''has'' ''D'']) = Inr G \<and>
     length (filter (\<lambda>e. fst e = (NStr (str ''A''), NStr (str ''B''))) (edges G)) = 1 \<and>
     ((NStr (str ''A''), NStr (str ''B'')), JStr (str ''likes'')) \<in> set (edges G) \<and>
     ((NStr (str ''A''), NStr (str ''B'')), JStr (str ''knows'')) \<notin> set (edges G)"
proof -
  let ?t1 = "triple ''A'' ''knows'' ''B''" and ?t2 = "triple ''A'' ''likes'' ''B''"
  let ?t3 = "triple ''C'' ''has'' ''D''"
  have h: "\<forall>t\<in>set ([?t1] @ ?t2 # [?t3]). is_triple t"
    by (simp add: triple_eval)
  have p: "populated ?t2" by (simp add: triple_eval)
  have ka: "py_key (subj_of ?t2) = Some (NStr (str ''A''))"
    and kb: "py_key (obj_of ?t2) = Some (NStr (str ''B''))"
    by (simp_all add: triple_eval)
  have post: "\<forall>t'\<in>set [?t3]. \<not> (populated t' \<and> py_key (subj_of t') = Some (NStr (str ''A''))
      \<and> py_key (obj_of t') = Some (NStr (str ''B'')))"
    by (simp add: triple_eval)
  have ne: "JStr (str ''knows'') \<noteq> pred_of ?t2" and eq: "pred_of ?t2 = JStr (str ''likes'')"
    by (simp_all add: triple_eval)
  from build_graph_last_label_wins[OF h p ka kb post] ne eq show ?thesis
    by auto
qed

subsection \<open>C6: the text of a document is the concatenation of its pages' texts\<close>

text \<open>
  Claim C6. For a stored file that \<open>fitz.open\<close> reads as the pages \<open>doc\<close>,
  \<open>extract_text_from_pdf\<close> returns the texts of the pages, in page order, joined with
  nothing between them; for a document of one page that is the page's text.
\<close>

theorem extract_text_concatenates_pages:
  assumes "uploads w pdf_path = Some bytes" and "fitz_open sv bytes = Inr doc"
  shows "fst (extract_text_from_pdf sv pdf_path w) = Inr (concat (map get_text doc)) \<and>
     (\<forall>p. doc = [p] \<longrightarrow> fst (extract_text_from_pdf sv pdf_path w) = Inr (get_text p))"
  using assms by (simp add: extract_text_from_pdf_def Let_def)

text \<open>The theorem for a document of three pages and for one of a single page.\<close>

theorem extract_text_concatenates_pages_witness:
  "fst (extract_text_from_pdf
          ((stub_services [])\<lparr>fitz_open := \<lambda>b. Inr [Page (str ''ab''), Page [], Page (str ''cd'')]\<rparr>)
          (str ''a.pdf'') (empty_world\<lparr>uploads := [str ''a.pdf'' \<mapsto> [37, 80, 68, 70]]\<rparr>)) =
     Inr (str ''abcd'') \<and>
   fst (extract_text_from_pdf (stub_services []) (str ''a.pdf'')
          (empty_world\<lparr>uploads := [str ''a.pdf'' \<mapsto> [37, 80, 68, 70]]\<rparr>)) =
     Inr (str ''Alice knows Bob.'')"
proof -
  let ?w = "empty_world\<lparr>uploads := [str ''a.pdf'' \<mapsto> [37, 80, 68, 70]]\<rparr>"
  let ?sv = "(stub_services [])\<lparr>fitz_open := \<lambda>b. Inr [Page (str ''ab''), Page [], Page (str ''cd'')]\<rparr>"
  have u: "uploads ?w (str ''a.pdf'') = Some [37, 80, 68, 70]" by simp
  have o3: "fitz_open ?sv [37, 80, 68, 70] = Inr [Page (str ''ab''), Page [], Page (str ''cd'')]"
    by simp
  have o1: "fitz_open (stub_services []) [37, 80, 68, 70] = Inr [Page (str ''Alice knows Bob.'')]"
    by (simp add: stub_services_def)
  from extract_text_concatenates_pages[OF u o3] extract_text_concatenates_pages[OF u o1]
  show ?thesis by (simp add: str_def)
qed

subsection \<open>C7: the parsed value is returned as it is\<close>

text \<open>
  Claim C7 says that a successful parse always returns a list of triple objects. It does
  not: the function returns what \<open>json.loads\<close> returns and checks nothing. For the
  reply \<open>42\<close> the parse succeeds and the function returns the integer 42.
\<close>

theorem extract_returns_scalar_counterexample:
  "json_loads default_limits (clean_text (py_strip (str ''42''))) = Inr (JInt 42) \<and>
   fst (extract_knowledge_triples (stub_services (str ''42'')) (str ''Alice knows Bob.'')
          empty_world) = Inr (JInt 42)"
proof -
  have c: "clean_text (py_strip (str ''42'')) = str ''42''"
    by (simp add: clean_eval)
  have n: "json_loads default_limits (clean_text (py_strip (str ''42''))) = Inr (JInt 42)"
    unfolding c by (simp add: lex_eval)
  then show ?thesis
    by (simp add: extract_knowledge_triples_def Let_def stub_services_def)
qed

text \<open>
  Claim C7, amended. Whenever the JSON parse of the cleaned reply succeeds,
  \<open>extract_knowledge_triples\<close> returns exactly the parsed value, of whatever JSON type,
  and prints nothing.
\<close>

theorem extract_returns_parsed_value:
  assumes "generate_content sv (prompt_of text) = Inr reply"
    and "json_loads (interp sv) (clean_text (py_strip reply)) = Inr v"
  shows "extract_knowledge_triples sv text w =
     (Inr v, w\<lparr>trace := trace w @ [Model_called (prompt_of text)]\<rparr>)"
  using assms by (simp add: extract_knowledge_triples_def Let_def)

text \<open>The theorem for the reply \<open>{}\<close>, a single empty object.\<close>

theorem extract_returns_parsed_value_witness:
  "generate_content (stub_services (str ''{}'')) (prompt_of (str ''Alice knows Bob.''))
     = Inr (str ''{}'') \<and>
   json_loads (interp (stub_services (str ''{}''))) (clean_text (py_strip (str ''{}'')))
     = Inr (JObj []) \<and>
   fst (extract_knowledge_triples (stub_services (str ''{}'')) (str ''Alice knows Bob.'')
          empty_world) = Inr (JObj [])"
proof -
  have g: "generate_content (stub_services (str ''{}'')) (prompt_of (str ''Alice knows Bob.''))
     = Inr (str ''{}'')"
    by (simp add: stub_services_def)
  have c: "clean_text (py_strip (str ''{}'')) = str ''{}''"
    by (simp add: clean_eval)
  have n: "json_loads (interp (stub_services (str ''{}''))) (clean_text (py_strip (str ''{}'')))
     = Inr (JObj [])"
    unfolding c by (simp add: lex_eval stub_services_def)
  from extract_returns_parsed_value[OF g n, of empty_world] g n show ?thesis
    by simp
qed

subsection \<open>C8: a request without the file\<close>

text \<open>
  Claim C8. When the request carries no file under the field name \<open>pdf\<close>,
  \<open>upload_pdf\<close> answers with status 400 and the payload
  \<open>{"error": "No PDF file uploaded"}\<close>, and the world is unchanged: no file is saved,
  no identifier drawn, no document opened, the model not called.
\<close>

theorem upload_without_file:
  assumes "map_of (files req) (str ''pdf'') = None"
  shows "upload_pdf sv req w =
     (Inr \<lparr>status = 400, body = JObj [(str ''error'', JStr (str ''No PDF file uploaded''))]\<rparr>, w)"
  using assms by (simp add: upload_pdf_def error_response_def)

text \<open>The theorem for a request with no files at all.\<close>

theorem upload_without_file_witness:
  "map_of (files \<lparr>files = []\<rparr>) (str ''pdf'') = None \<and>
   upload_pdf (stub_services (str ''[]'')) \<lparr>files = []\<rparr> empty_world =
     (Inr \<lparr>status = 400, body = JObj [(str ''error'', JStr (str ''No PDF file uploaded''))]\<rparr>,
      empty_world)"
proof -
  have h: "map_of (files \<lparr>files = []\<rparr>) (str ''pdf'') = None" by simp
  from upload_without_file[OF h] h show ?thesis by simp
qed

subsection \<open>C9: a non-empty list of unusable triples gives an image of the empty graph\<close>

text \<open>
  Claim C9. The check before the Graph Builder looks at the list only: when the Triple
  Extractor returned a non-empty list of objects each of which has a missing or falsy
  field, \<open>upload_pdf\<close> answers with status 200 and an \<open>image_url\<close> under
  \<open>/generated/\<close>, and the image saved under that name is the figure of the graph
  with no node and no edge: a figure without a text, which the renderer never refuses.
\<close>

theorem upload_unusable_triples:
  assumes "map_of (files req) (str ''pdf'') = Some f" and "filename f \<noteq> []"
    and "save_upload sv f w = (pdf_path, w1)"
    and "extract_text_from_pdf sv pdf_path w1 = (Inr text, w2)"
    and "extract_knowledge_triples sv text w2 = (Inr (JArr ts), w3)"
    and "ts \<noteq> []" and "\<forall>t\<in>set ts. (\<exists>d. t = JObj d) \<and> \<not> populated t"
    and "uuid4 sv w3 = (h, w4)"
  shows "upload_pdf sv req w =
       (Inr \<lparr>status = 200,
             body = JObj [(str ''image_url'', JStr (str ''/generated/'' @ h @ str ''.png''))]\<rparr>,
        w4\<lparr>generated := (generated w4)(h @ str ''.png'' \<mapsto> Figure \<lparr>nodes = [], edges = []\<rparr>),
           trace := trace w4 @ [Image_saved (h @ str ''.png'')]\<rparr>)"
proof -
  have "build_graph (JArr ts) = Inr empty_graph"
    using build_loop_unpopulated[OF assms(7)] by (simp add: build_graph_def)
  with assms show ?thesis
    by (simp add: upload_pdf_def respond_def build_and_save_graph_def render_def empty_graph_def
        Let_def)
qed

text \<open>The theorem for the stubbed model that replies \<open>[{"subject": "A"}]\<close>.\<close>

theorem upload_unusable_triples_witness:
  "fst (upload_pdf
          (stub_services (str ''[{'' @ [34] @ str ''subject'' @ [34] @ str '': '' @ [34]
             @ str ''A'' @ [34] @ str ''}]''))
          pdf_request empty_world) =
     Inr \<lparr>status = 200,
          body = JObj [(str ''image_url'',
                        JStr (str ''/generated/7c9e6679742540de944be07fc1f90ae7.png''))]\<rparr> \<and>
   generated
     (snd (upload_pdf
             (stub_services (str ''[{'' @ [34] @ str ''subject'' @ [34] @ str '': '' @ [34]
                @ str ''A'' @ [34] @ str ''}]''))
             pdf_request empty_world))
     (str ''7c9e6679742540de944be07fc1f90ae7.png'') = Some (Figure \<lparr>nodes = [], edges = []\<rparr>)"
proof -
  let ?reply = "str ''[{'' @ [34] @ str ''subject'' @ [34] @ str '': '' @ [34]
             @ str ''A'' @ [34] @ str ''}]''"
  let ?sv = "stub_services ?reply"
  let ?f = "\<lparr>filename = str ''a.pdf'', bytes_of = [37, 80, 68, 70]\<rparr>"
  let ?ts = "[JObj [(str ''subject'', JStr (str ''A''))]]"
  have 1: "map_of (files pdf_request) (str ''pdf'') = Some ?f"
    by (simp add: pdf_request_def)
  have 2: "filename ?f \<noteq> []" by (simp add: str_def)
  obtain p w1 where 3: "save_upload ?sv ?f empty_world = (p, w1)" by force
  then have up: "uploads w1 p = Some [37, 80, 68, 70]" and d1: "drawn w1 = 1"
    by (auto simp: save_upload_def uuid4_def Let_def empty_world_def)
  obtain w2 where 4: "extract_text_from_pdf ?sv p w1 = (Inr (str ''Alice knows Bob.''), w2)"
    and d2: "drawn w2 = 1"
    using up d1 by (simp add: extract_text_from_pdf_def Let_def stub_services_def)
  have c: "clean_text (py_strip ?reply) = ?reply"
    by (simp add: clean_eval)
  have n: "json_loads default_limits (clean_text (py_strip ?reply)) = Inr (JArr ?ts)"
    unfolding c by (simp add: lex_eval)
  obtain w3 where 5: "extract_knowledge_triples ?sv (str ''Alice knows Bob.'') w2 = (Inr (JArr ?ts), w3)"
    and d3: "drawn w3 = 1"
    using n d2 by (simp add: extract_knowledge_triples_def Let_def stub_services_def)
  have 6: "?ts \<noteq> []" by simp
  have 7: "\<forall>t\<in>set ?ts. (\<exists>d. t = JObj d) \<and> \<not> populated t"
    by (simp add: triple_eval)
  obtain w4 where 8: "uuid4 ?sv w3 = (str ''7c9e6679742540de944be07fc1f90ae7'', w4)"
    using d3 by (simp add: uuid4_def stub_services_def)
  from upload_unusable_triples[OF 1 2 3 4 5 6 7 8] show ?thesis
    by (simp add: str_def)
qed

subsection \<open>C10: duplicate triples do not change the graph\<close>

text \<open>
  Claim C10. For every list of triples, the graph built from the list and the graph built
  from the list without its duplicates (\<open>remdups\<close> keeps the last occurrence of each
  triple) have the same node set, the same edge set and the same edge labels.
\<close>

theorem build_graph_remdups:
  assumes "\<forall>t\<in>set ts. is_triple t"
  shows "\<exists>G G'. build_graph (JArr ts) = Inr G \<and> build_graph (JArr (remdups ts)) = Inr G' \<and>
     set (nodes G) = set (nodes G') \<and> set (edges G) = set (edges G')"
proof -
  from build_loop_triples[OF assms] obtain G where G: "build_loop empty_graph ts = Inr G"
    by blast
  have "\<forall>t\<in>set (remdups ts). is_triple t" using assms by simp
  from build_loop_triples[OF this] obtain G'
    where G': "build_loop empty_graph (remdups ts) = Inr G'"
    by blast
  have n: "set (nodes G) = set (nodes G')"
    unfolding build_loop_nodes[OF G] build_loop_nodes[OF G'] by simp
  have "((a, b), l) \<in> set (edges G) \<longleftrightarrow> ((a, b), l) \<in> set (edges G')" for a b l
  proof -
    let ?P = "\<lambda>t. populated t \<and> py_key (subj_of t) = Some a \<and> py_key (obj_of t) = Some b"
    have r: "filter ?P (remdups ts) = remdups (filter ?P ts)"
      by (simp add: remdups_filter)
    show ?thesis
    proof (cases "filter ?P ts")
      case Nil
      then show ?thesis
        unfolding edges_mem_iff[OF G] edges_mem_iff[OF G'] r by simp
    next
      case (Cons x xs)
      then have ne: "filter ?P ts \<noteq> []" by simp
      then obtain y ys where y: "filter ?P (remdups ts) = y # ys"
        unfolding r by (cases "remdups (filter ?P ts)") auto
      have "last (y # ys) = last (x # xs)"
        using last_remdups[OF ne] y Cons unfolding r by simp
      then show ?thesis
        unfolding edges_mem_iff[OF G] edges_mem_iff[OF G'] y Cons by simp
    qed
  qed
  then have e: "set (edges G) = set (edges G')" by auto
  from G G' n e show ?thesis
    unfolding build_graph_JArr by blast
qed

text \<open>The theorem at a concrete list.\<close>

theorem build_graph_remdups_witness:
  "remdups [triple ''A'' ''knows'' ''B'', triple ''A'' ''likes'' ''B'', triple ''A'' ''knows'' ''B'']
     = [triple ''A'' ''likes'' ''B'', triple ''A'' ''knows'' ''B''] \<and>
   (\<exists>G G'. build_graph (JArr [triple ''A'' ''knows'' ''B'', triple ''A'' ''likes'' ''B'',
                              triple ''A'' ''knows'' ''B'']) = Inr G \<and>
      build_graph (JArr [triple ''A'' ''likes'' ''B'', triple ''A'' ''knows'' ''B'']) = Inr G' \<and>
      set (nodes G) = set (nodes G') \<and> set (edges G) = set (edges G'))"
proof -
  let ?t1 = "triple ''A'' ''knows'' ''B''" and ?t2 = "triple ''A'' ''likes'' ''B''"
  have h: "\<forall>t\<in>set [?t1, ?t2, ?t1]. is_triple t"
    by (simp add: triple_eval)
  have r: "remdups [?t1, ?t2, ?t1] = [?t2, ?t1]"
    by (simp add: triple_def str_def)
  from build_graph_remdups[OF h] r show ?thesis
    by simp
qed

end
